theory Spec2Isabelle
  imports Main "HOL-Library.Multiset" "HOL-Library.Product_Lexorder" "HOL-Library.AList"
begin

section \<open>Data model\<close>

text \<open>
  The comparison engine of \<^verbatim>\<open>src/main.py\<close> (class \<^verbatim>\<open>CompareBLASTs\<close> and
  \<^verbatim>\<open>perform_comparison\<close>). Hits are Python objects that several lists share, and the
  engine mutates their \<^verbatim>\<open>status\<close> attribute in place, so the model keeps an explicit
  store of hit objects and the buckets hold references into it.
\<close>

datatype error = KeyError | IndexError | ValueError | NameError | AssertionError

text \<open>One entry of \<^verbatim>\<open>hit.ids\<close>: the database tag and the number under it.\<close>

record ID =
  db :: string
  num :: string

text \<open>
  A \<^verbatim>\<open>BlastHit\<close> object as far as \<^verbatim>\<open>main.py\<close> reads it: the query name, the identifier
  list, the remaining columns (opaque here) and the mutable status; \<open>None\<close> is Python's
  \<^verbatim>\<open>None\<close>.
\<close>

record BlastHit =
  name :: string
  ids :: "ID list"
  columns :: string
  status :: "string option"

type_synonym ref = nat
type_synonym heap = "ref \<Rightarrow> BlastHit"

text \<open>
  The dictionary \<^verbatim>\<open>get_idlist\<close> returns: identifier number to a dictionary of fields
  (\<^verbatim>\<open>'Status'\<close>, \<^verbatim>\<open>'ReplacedBy'\<close>, \<^verbatim>\<open>'CreateDate'\<close>). Dictionaries are association lists
  read with \<open>map_of\<close>, so the first binding of a key is the dictionary's entry.
\<close>

type_synonym fields = "(string \<times> string) list"
type_synonym GeneIDs = "(string \<times> fields) list"

text \<open>
  A parsed date. \<^verbatim>\<open>strptime\<close> with the format \<^verbatim>\<open>'%Y/%m/%d'\<close> returns a tuple that Python
  compares field by field, and year, month and day are its first three fields and fix
  all the others, so the order is the lexicographic one on these triples.
\<close>

type_synonym date = "nat \<times> nat \<times> nat"

text \<open>
  The two dictionaries \<^verbatim>\<open>compare_blasts\<close> returns, one per side, with the keys
  \<^verbatim>\<open>main.py\<close> reads from them.
\<close>

record hits_dict =
  b_all :: "ref list"
  b_unknown :: "ref list"
  b_same :: "ref list"
  b_similar :: "ref list"

text \<open>
  What \<^verbatim>\<open>main.py\<close> imports and does not define: the module \<^verbatim>\<open>blast_hit\<close>
  (\<^verbatim>\<open>compare_blasts\<close>, \<^verbatim>\<open>get_idlist\<close>, the method \<^verbatim>\<open>compare_hit\<close>) and \<^verbatim>\<open>time.strptime\<close>.
  They are parameters of the model. \<^verbatim>\<open>compare_blasts\<close> may write to the hit objects, so it
  returns the store; of the pair \<^verbatim>\<open>compare_hit\<close> returns, only the first component is
  read by \<^verbatim>\<open>main.py\<close>.
\<close>

record blast_hit =
  compare_blasts :: "heap \<Rightarrow> ref list \<Rightarrow> ref list \<Rightarrow> heap \<times> hits_dict \<times> hits_dict"
  get_idlist :: "BlastHit list \<Rightarrow> string \<Rightarrow> error + GeneIDs"
  compare_hit :: "BlastHit \<Rightarrow> BlastHit \<Rightarrow> bool \<Rightarrow> bool"
  strptime :: "string \<Rightarrow> string \<Rightarrow> error + date"

text \<open>
  \<^verbatim>\<open>self.new_hits\<close> and \<^verbatim>\<open>self.old_hits\<close>. A key that \<^verbatim>\<open>compare\<close> creates later holds
  \<open>[]\<close> until then.
\<close>

record new_hits_dict =
  new_all :: "ref list"
  new_unknown :: "ref list"
  new_same :: "ref list"
  new_similar :: "ref list"
  new_replacement :: "ref list"
  new_new :: "ref list"
  new_old :: "ref list"

record old_hits_dict =
  old_all :: "ref list"
  old_unknown :: "ref list"
  old_same :: "ref list"
  old_similar :: "ref list"
  old_lost :: "ref list"
  old_suppressed :: "ref list"
  old_replacement :: "ref list"

text \<open>The local dictionary \<^verbatim>\<open>oldOnly\<close> of \<^verbatim>\<open>compare\<close>.\<close>

record oldOnly_dict =
  live :: "ref list"
  replaced :: "ref list"
  suppressed :: "ref list"

text \<open>
  The object \<^verbatim>\<open>self\<close> together with the store of hit objects. Two fields are not in
  the source and record its effects: \<open>calls\<close> lists the arguments of the calls of
  \<^verbatim>\<open>get_idlist\<close> in order, \<open>writes\<close> lists the assignments to \<^verbatim>\<open>hit.status\<close> in order.
\<close>

record CompareBLASTs =
  heap :: heap
  input_old_hits :: "ref list"
  input_new_hits :: "ref list"
  email :: string
  query :: string
  new_hits :: new_hits_dict
  old_hits :: old_hits_dict
  oldGeneIDs :: GeneIDs
  newGeneIDs :: GeneIDs
  calls :: "ref list list"
  writes :: "(ref \<times> string) list"

section \<open>Python primitives\<close>

text \<open>\<^verbatim>\<open>d[k]\<close> raises \<^verbatim>\<open>KeyError\<close> for a missing key.\<close>

definition getitem :: "('k \<times> 'v) list \<Rightarrow> 'k \<Rightarrow> error + 'v" where
  "getitem d k = (case map_of d k of None \<Rightarrow> Inl KeyError | Some v \<Rightarrow> Inr v)"

text \<open>\<^verbatim>\<open>d.values()\<close>: one value for each key.\<close>

definition dict_values :: "('k \<times> 'v) list \<Rightarrow> 'v list" where
  "dict_values d = map snd (AList.clearjunk d)"

text \<open>\<^verbatim>\<open>max\<close> of a list raises \<^verbatim>\<open>ValueError\<close> on the empty list.\<close>

fun py_max :: "date list \<Rightarrow> error + date" where
  "py_max [] = Inl ValueError"
| "py_max (x # xs) = Inr (fold max xs x)"

text \<open>\<^verbatim>\<open>xs[:n]\<close>: a negative \<open>n\<close> counts from the end.\<close>

definition slice_to :: "'a list \<Rightarrow> int \<Rightarrow> 'a list" where
  "slice_to xs n = (if 0 \<le> n then take (nat n) xs else take (length xs - nat (- n)) xs)"

text \<open>\<^verbatim>\<open>hit.status = v\<close>.\<close>

definition set_status :: "CompareBLASTs \<Rightarrow> ref \<Rightarrow> string \<Rightarrow> CompareBLASTs" where
  "set_status s h v =
     s\<lparr>heap := (heap s)(h := (heap s h)\<lparr>status := Some v\<rparr>), writes := writes s @ [(h, v)]\<rparr>"

section \<open>\<^verbatim>\<open>CompareBLASTs.compare\<close>\<close>

subsection \<open>Lines 83 to 92: the fate of the old hits without a copy\<close>

text \<open>\<^verbatim>\<open>oldOnly[st].append(hit)\<close>; \<^verbatim>\<open>oldOnly\<close> has three keys.\<close>

definition oldOnly_append :: "oldOnly_dict \<Rightarrow> string \<Rightarrow> ref \<Rightarrow> error + oldOnly_dict" where
  "oldOnly_append oo st h =
     (if st = ''live'' then Inr (oo\<lparr>live := live oo @ [h]\<rparr>)
      else if st = ''replaced'' then Inr (oo\<lparr>replaced := replaced oo @ [h]\<rparr>)
      else if st = ''suppressed'' then Inr (oo\<lparr>suppressed := suppressed oo @ [h]\<rparr>)
      else Inl KeyError)"

text \<open>
  The inner loop over \<^verbatim>\<open>hit.ids\<close> stops at the first identifier whose database is
  \<^verbatim>\<open>'gi'\<close>; a hit without one goes through the loop untouched.
\<close>

definition classify_old_hit ::
  "CompareBLASTs \<times> oldOnly_dict \<Rightarrow> ref \<Rightarrow> error + CompareBLASTs \<times> oldOnly_dict" where
  "classify_old_hit so h =
     (case so of (s, oo) \<Rightarrow>
      (case find (\<lambda>I. db I = ''gi'') (ids (heap s h)) of
         None \<Rightarrow> Inr (s, oo)
       | Some I \<Rightarrow>
          (case getitem (oldGeneIDs s) (num I) of
             Inl e \<Rightarrow> Inl e
           | Inr r \<Rightarrow>
              (case getitem r ''Status'' of
                 Inl e \<Rightarrow> Inl e
               | Inr st \<Rightarrow>
                  (case oldOnly_append oo st h of
                     Inl e \<Rightarrow> Inl e
                   | Inr oo' \<Rightarrow> Inr (set_status s h st, oo'))))))"

fun classify_old ::
  "ref list \<Rightarrow> CompareBLASTs \<times> oldOnly_dict \<Rightarrow> error + CompareBLASTs \<times> oldOnly_dict" where
  "classify_old [] so = Inr so"
| "classify_old (h # hs) so =
     (case classify_old_hit so h of Inl e \<Rightarrow> Inl e | Inr so' \<Rightarrow> classify_old hs so')"

subsection \<open>Lines 101 to 121: looking for the replacing hit\<close>

text \<open>
  Lines 102 to 104 have no \<^verbatim>\<open>break\<close>: every \<^verbatim>\<open>'gi'\<close> identifier of the hit is looked up
  and the last one decides \<^verbatim>\<open>new_id\<close>. The variable outlives the iteration, so it is
  passed in and out; \<open>None\<close> is the unbound variable.
\<close>

fun read_new_id :: "GeneIDs \<Rightarrow> ID list \<Rightarrow> string option \<Rightarrow> error + string option" where
  "read_new_id g [] new_id = Inr new_id"
| "read_new_id g (I # Is) new_id =
     (if db I = ''gi'' then
        (case getitem g (num I) of
           Inl e \<Rightarrow> Inl e
         | Inr r \<Rightarrow>
            (case getitem r ''ReplacedBy'' of
               Inl e \<Rightarrow> Inl e
             | Inr v \<Rightarrow> read_new_id g Is (Some v)))
      else read_new_id g Is new_id)"

text \<open>
  Lines 106 to 109: the index of the first hit of \<^verbatim>\<open>self.new_hits['unknown']\<close> that
  carries \<^verbatim>\<open>new_id\<close> and that \<^verbatim>\<open>compare_hit\<close> with \<^verbatim>\<open>check_ids=False\<close> accepts. Reading the
  unbound \<^verbatim>\<open>new_id\<close> raises (\<^verbatim>\<open>UnboundLocalError\<close> is a \<^verbatim>\<open>NameError\<close>).
\<close>

fun scan_unknown ::
  "blast_hit \<Rightarrow> heap \<Rightarrow> ref \<Rightarrow> string option \<Rightarrow> ref list \<Rightarrow> nat \<Rightarrow> error + nat option" where
  "scan_unknown env hp h new_id [] num2 = Inr None"
| "scan_unknown env hp h new_id (hit2 # rest) num2 =
     (case new_id of
        None \<Rightarrow> Inl NameError
      | Some n \<Rightarrow>
         (if n \<in> set (map num (ids (hp hit2))) then
            (if compare_hit env (hp h) (hp hit2) False then Inr (Some num2)
             else scan_unknown env hp h new_id rest (Suc num2))
          else scan_unknown env hp h new_id rest (Suc num2)))"

text \<open>\<^verbatim>\<open>xs.pop(i)\<close> for an index in range.\<close>

definition pop :: "'a list \<Rightarrow> nat \<Rightarrow> 'a list" where
  "pop xs i = take i xs @ drop (Suc i) xs"

text \<open>
  Lines 110 to 115: the hit at index \<open>num2\<close> leaves \<^verbatim>\<open>self.new_hits['unknown']\<close> for
  \<^verbatim>\<open>self.new_hits['replacement']\<close>, the old hit goes to \<^verbatim>\<open>self.old_hits['replacement']\<close>.
\<close>

definition confirm :: "CompareBLASTs \<Rightarrow> ref \<Rightarrow> nat \<Rightarrow> CompareBLASTs" where
  "confirm s h num2 =
     (let rep = new_unknown (new_hits s) ! num2;
          s1 = s\<lparr>new_hits := (new_hits s)\<lparr>new_unknown := pop (new_unknown (new_hits s)) num2\<rparr>\<rparr>;
          s2 = set_status s1 rep ''replacement'';
          s3 = s2\<lparr>new_hits := (new_hits s2)\<lparr>new_replacement := new_replacement (new_hits s2) @ [rep]\<rparr>\<rparr>
      in s3\<lparr>old_hits := (old_hits s3)\<lparr>old_replacement := old_replacement (old_hits s3) @ [h]\<rparr>\<rparr>)"

text \<open>Lines 117 to 121: no replacing hit, the old hit is lost.\<close>

definition lose :: "CompareBLASTs \<Rightarrow> ref \<Rightarrow> CompareBLASTs" where
  "lose s h =
     set_status (s\<lparr>old_hits := (old_hits s)\<lparr>old_lost := old_lost (old_hits s) @ [h]\<rparr>\<rparr>) h ''live''"

text \<open>One iteration of the loop of line 101.\<close>

definition link_hit ::
  "blast_hit \<Rightarrow> CompareBLASTs \<times> string option \<Rightarrow> ref \<Rightarrow> error + CompareBLASTs \<times> string option" where
  "link_hit env sn h =
     (case sn of (s, new_id0) \<Rightarrow>
      (case read_new_id (oldGeneIDs s) (ids (heap s h)) new_id0 of
         Inl e \<Rightarrow> Inl e
       | Inr new_id \<Rightarrow>
          (case scan_unknown env (heap s) h new_id (new_unknown (new_hits s)) 0 of
             Inl e \<Rightarrow> Inl e
           | Inr (Some num2) \<Rightarrow> Inr (confirm s h num2, new_id)
           | Inr None \<Rightarrow> Inr (lose s h, new_id))))"

fun link_replaced ::
  "blast_hit \<Rightarrow> ref list \<Rightarrow> CompareBLASTs \<times> string option \<Rightarrow> error + CompareBLASTs \<times> string option" where
  "link_replaced env [] sn = Inr sn"
| "link_replaced env (h # hs) sn =
     (case link_hit env sn h of Inl e \<Rightarrow> Inl e | Inr sn' \<Rightarrow> link_replaced env hs sn')"

subsection \<open>Lines 130 and 131: the date of the old search\<close>

text \<open>The list comprehension raises at the first record it cannot read.\<close>

fun create_dates :: "blast_hit \<Rightarrow> fields list \<Rightarrow> error + date list" where
  "create_dates env [] = Inr []"
| "create_dates env (r # rs) =
     (case getitem r ''CreateDate'' of
        Inl e \<Rightarrow> Inl e
      | Inr c \<Rightarrow>
         (case strptime env c ''%Y/%m/%d'' of
            Inl e \<Rightarrow> Inl e
          | Inr d \<Rightarrow>
             (case create_dates env rs of Inl e \<Rightarrow> Inl e | Inr ds \<Rightarrow> Inr (d # ds))))"

definition date_oldsearch :: "blast_hit \<Rightarrow> GeneIDs \<Rightarrow> error + date" where
  "date_oldsearch env g =
     (case create_dates env (dict_values g) of Inl e \<Rightarrow> Inl e | Inr ds \<Rightarrow> py_max ds)"

subsection \<open>Lines 136 to 145: new or strange\<close>

text \<open>
  The date of a new hit is looked up under its first identifier, whatever its database;
  \<^verbatim>\<open>hit.ids[0]\<close> raises on a hit without identifiers.
\<close>

definition create_date_of :: "blast_hit \<Rightarrow> GeneIDs \<Rightarrow> BlastHit \<Rightarrow> error + date" where
  "create_date_of env g hit =
     (case ids hit of
        [] \<Rightarrow> Inl IndexError
      | I # _ \<Rightarrow>
         (case getitem g (num I) of
            Inl e \<Rightarrow> Inl e
          | Inr r \<Rightarrow>
             (case getitem r ''CreateDate'' of
                Inl e \<Rightarrow> Inl e
              | Inr c \<Rightarrow> strptime env c ''%Y/%m/%d'')))"

definition tag_new :: "CompareBLASTs \<Rightarrow> ref \<Rightarrow> bool \<Rightarrow> CompareBLASTs" where
  "tag_new s h older =
     (if older then
        set_status (s\<lparr>new_hits := (new_hits s)\<lparr>new_old := new_old (new_hits s) @ [h]\<rparr>\<rparr>)
          h ''strange''
      else
        set_status (s\<lparr>new_hits := (new_hits s)\<lparr>new_new := new_new (new_hits s) @ [h]\<rparr>\<rparr>)
          h ''new'')"

definition classify_new_hit ::
  "blast_hit \<Rightarrow> date \<Rightarrow> CompareBLASTs \<Rightarrow> ref \<Rightarrow> error + CompareBLASTs" where
  "classify_new_hit env base s h =
     (case create_date_of env (newGeneIDs s) (heap s h) of
        Inl e \<Rightarrow> Inl e
      | Inr d \<Rightarrow> Inr (tag_new s h (d < base)))"

fun classify_new :: "blast_hit \<Rightarrow> date \<Rightarrow> ref list \<Rightarrow> CompareBLASTs \<Rightarrow> error + CompareBLASTs" where
  "classify_new env base [] s = Inr s"
| "classify_new env base (h # hs) s =
     (case classify_new_hit env base s h of
        Inl e \<Rightarrow> Inl e
      | Inr s' \<Rightarrow> classify_new env base hs s')"

subsection \<open>The whole method\<close>

text \<open>\<^verbatim>\<open>__init__\<close>, with the store the hit objects live in.\<close>

definition init :: "heap \<Rightarrow> ref list \<Rightarrow> ref list \<Rightarrow> string \<Rightarrow> string \<Rightarrow> CompareBLASTs" where
  "init hp old new em nm =
     \<lparr>heap = hp, input_old_hits = old, input_new_hits = new, email = em, query = nm,
      new_hits = \<lparr>new_all = [], new_unknown = [], new_same = [], new_similar = [],
                  new_replacement = [], new_new = [], new_old = []\<rparr>,
      old_hits = \<lparr>old_all = [], old_unknown = [], old_same = [], old_similar = [],
                  old_lost = [], old_suppressed = [], old_replacement = []\<rparr>,
      oldGeneIDs = [], newGeneIDs = [], calls = [], writes = []\<rparr>"

text \<open>Lines 74 and 75.\<close>

definition match_hits :: "blast_hit \<Rightarrow> CompareBLASTs \<Rightarrow> CompareBLASTs" where
  "match_hits env s =
     (case compare_blasts env (heap s) (input_new_hits s) (input_old_hits s) of
        (hp, pn, po) \<Rightarrow>
          s\<lparr>heap := hp,
            new_hits := \<lparr>new_all = b_all pn, new_unknown = b_unknown pn, new_same = b_same pn,
                         new_similar = b_similar pn, new_replacement = [], new_new = [],
                         new_old = []\<rparr>,
            old_hits := \<lparr>old_all = b_all po, old_unknown = b_unknown po, old_same = b_same po,
                         old_similar = b_similar po, old_lost = [], old_suppressed = [],
                         old_replacement = []\<rparr>\<rparr>)"

text \<open>Line 78, and line 125 with the other list: the call is recorded, then made.\<close>

definition resolve :: "blast_hit \<Rightarrow> CompareBLASTs \<Rightarrow> ref list \<Rightarrow> CompareBLASTs \<times> (error + GeneIDs)" where
  "resolve env s hs =
     (s\<lparr>calls := calls s @ [hs]\<rparr>, get_idlist env (map (heap s) hs) (email s))"

text \<open>Lines 94 to 97.\<close>

definition open_buckets :: "CompareBLASTs \<Rightarrow> oldOnly_dict \<Rightarrow> CompareBLASTs" where
  "open_buckets s oo =
     s\<lparr>new_hits := (new_hits s)\<lparr>new_replacement := []\<rparr>,
       old_hits := (old_hits s)\<lparr>old_lost := live oo, old_suppressed := suppressed oo,
                                old_replacement := []\<rparr>\<rparr>"

text \<open>Lines 125 to 145.\<close>

definition finish :: "blast_hit \<Rightarrow> CompareBLASTs \<Rightarrow> error + CompareBLASTs" where
  "finish env s =
     (case resolve env s (new_unknown (new_hits s)) of
        (s1, Inl e) \<Rightarrow> Inl e
      | (s1, Inr g) \<Rightarrow>
         (let s2 = s1\<lparr>newGeneIDs := g\<rparr> in
          (case date_oldsearch env (oldGeneIDs s2) of
             Inl e \<Rightarrow> Inl e
           | Inr base \<Rightarrow>
              classify_new env base (new_unknown (new_hits s2))
                (s2\<lparr>new_hits := (new_hits s2)\<lparr>new_new := [], new_old := []\<rparr>\<rparr>))))"

definition compare :: "blast_hit \<Rightarrow> CompareBLASTs \<Rightarrow> error + CompareBLASTs" where
  "compare env s0 =
     (let s = match_hits env s0 in
      (case resolve env s (old_all (old_hits s)) of
         (s1, Inl e) \<Rightarrow> Inl e
       | (s1, Inr g) \<Rightarrow>
          (let s2 = s1\<lparr>oldGeneIDs := g\<rparr> in
           (case classify_old (old_unknown (old_hits s2))
                   (s2, \<lparr>live = [], replaced = [], suppressed = []\<rparr>) of
              Inl e \<Rightarrow> Inl e
            | Inr (s3, oo) \<Rightarrow>
               (case link_replaced env (replaced oo) (open_buckets s3 oo, None) of
                  Inl e \<Rightarrow> Inl e
                | Inr (s4, new_id) \<Rightarrow> finish env s4)))))"

section \<open>\<^verbatim>\<open>CompareBLASTs.output_comparison\<close>, lines 164 to 179\<close>

text \<open>The dictionary \<^verbatim>\<open>hits_per_category\<close> and its seven keys.\<close>

type_synonym tally = "string \<rightharpoonup> nat"

definition categories :: "string list" where
  "categories = [''equal'', ''similar'', ''live'', ''replaced'', ''suppressed'', ''new'', ''strange'']"

definition no_hits :: tally where
  "no_hits = map_of (map (\<lambda>c. (c, 0)) categories)"

text \<open>
  \<^verbatim>\<open>hits_per_category[hit.status] += 1\<close> raises \<^verbatim>\<open>KeyError\<close> when the status is not a key.
\<close>

definition increment :: "tally \<Rightarrow> string option \<Rightarrow> error + tally" where
  "increment t st =
     (case st of
        None \<Rightarrow> Inl KeyError
      | Some c \<Rightarrow> (case t c of None \<Rightarrow> Inl KeyError | Some n \<Rightarrow> Inr (t(c \<mapsto> Suc n))))"

fun count_old :: "heap \<Rightarrow> ref list \<Rightarrow> tally \<Rightarrow> error + tally" where
  "count_old hp [] t = Inr t"
| "count_old hp (h # hs) t =
     (case increment t (status (hp h)) of Inl e \<Rightarrow> Inl e | Inr t' \<Rightarrow> count_old hp hs t')"

fun count_new :: "heap \<Rightarrow> ref list \<Rightarrow> tally \<Rightarrow> error + tally" where
  "count_new hp [] t = Inr t"
| "count_new hp (h # hs) t =
     (if status (hp h) \<in> set [Some ''new'', Some ''strange''] then
        (case increment t (status (hp h)) of Inl e \<Rightarrow> Inl e | Inr t' \<Rightarrow> count_new hp hs t')
      else count_new hp hs t)"

definition top_of :: "int \<Rightarrow> 'a list \<Rightarrow> int" where
  "top_of topN xs = (if topN = 0 then int (length xs) else min topN (int (length xs)))"

definition hits_per_category :: "CompareBLASTs \<Rightarrow> int \<Rightarrow> error + tally" where
  "hits_per_category s topN =
     (let top_old = top_of topN (old_all (old_hits s));
          top_new = top_of topN (new_all (new_hits s))
      in (case count_old (heap s) (slice_to (old_all (old_hits s)) top_old) no_hits of
            Inl e \<Rightarrow> Inl e
          | Inr t \<Rightarrow> count_new (heap s) (slice_to (new_all (new_hits s)) top_new) t))"

section \<open>\<^verbatim>\<open>perform_comparison\<close>\<close>

text \<open>
  Lines 297 to 307: the hits of a file sorted by query, in a dictionary that keeps the
  order in which the queries first appear.
\<close>

fun sort_hits :: "heap \<Rightarrow> ref list \<Rightarrow> (string \<times> ref list) list \<Rightarrow> (string \<times> ref list) list" where
  "sort_hits hp [] d = d"
| "sort_hits hp (h # hs) d =
     sort_hits hp hs
       (if name (hp h) \<in> set (map fst d)
        then map (\<lambda>(k, v). if k = name (hp h) then (k, v @ [h]) else (k, v)) d
        else d @ [(name (hp h), [h])])"

text \<open>
  Lines 323 to 328 for the queries still to do. The result holds, for each query, the
  comparison object after \<^verbatim>\<open>compare\<close> and the counts \<^verbatim>\<open>output_comparison\<close> prints; the
  lines printed and the exported files are left out.
\<close>

fun compare_queries ::
  "blast_hit \<Rightarrow> string \<Rightarrow> int \<Rightarrow> (string \<times> ref list) list \<Rightarrow> (string \<times> ref list) list \<Rightarrow>
   string list \<Rightarrow> heap \<Rightarrow> error + (CompareBLASTs \<times> tally) list" where
  "compare_queries env em topN old new [] hp = Inr []"
| "compare_queries env em topN old new (key # keys) hp =
     (case getitem old key of
        Inl e \<Rightarrow> Inl e
      | Inr ohs \<Rightarrow>
         (case getitem new key of
            Inl e \<Rightarrow> Inl e
          | Inr nhs \<Rightarrow>
             (case compare env (init hp ohs nhs em key) of
                Inl e \<Rightarrow> Inl e
              | Inr s \<Rightarrow>
                 (case hits_per_category s topN of
                    Inl e \<Rightarrow> Inl e
                  | Inr t \<Rightarrow>
                     (case compare_queries env em topN old new keys (heap s) of
                        Inl e \<Rightarrow> Inl e
                      | Inr rs \<Rightarrow> Inr ((s, t) # rs))))))"

text \<open>
  The function from the two loaded hit lists on. The assertion of line 310 compares the
  keys of the two dictionaries; it is taken as the comparison of the two key sets, which
  is what Python 3 does. (Python 2 compares two key lists, which are equal only if the
  key sets are.)
\<close>

definition perform_comparison ::
  "blast_hit \<Rightarrow> string \<Rightarrow> int \<Rightarrow> heap \<Rightarrow> ref list \<Rightarrow> ref list \<Rightarrow> error + (CompareBLASTs \<times> tally) list" where
  "perform_comparison env em topN hp new_hits_all old_hits_all =
     (let new = sort_hits hp new_hits_all [];
          old = sort_hits hp old_hits_all []
      in if set (map fst old) \<noteq> set (map fst new) then Inl AssertionError
         else compare_queries env em topN old new (map fst old) hp)"

section \<open>Notions the properties are stated with\<close>

text \<open>The hit has an identifier under \<^verbatim>\<open>'gi'\<close>.\<close>

definition has_gi :: "BlastHit \<Rightarrow> bool" where
  "has_gi x = (find (\<lambda>I. db I = ''gi'') (ids x) \<noteq> None)"

text \<open>
  The test of lines 107 to 109 on one hit of \<^verbatim>\<open>self.new_hits['unknown']\<close>: it carries the
  number \<open>n\<close> and \<^verbatim>\<open>compare_hit\<close> without the identifiers accepts it for the old hit.
\<close>

definition replaces :: "blast_hit \<Rightarrow> heap \<Rightarrow> ref \<Rightarrow> string \<Rightarrow> ref \<Rightarrow> bool" where
  "replaces env hp h n hit2 =
     (n \<in> set (map num (ids (hp hit2))) \<and> compare_hit env (hp h) (hp hit2) False)"

text \<open>
  The test of lines 139 and 140 on one hit: its entry was created before the date
  \<open>base\<close>.
\<close>

definition older :: "blast_hit \<Rightarrow> GeneIDs \<Rightarrow> date \<Rightarrow> BlastHit \<Rightarrow> bool" where
  "older env g base x = (case create_date_of env g x of Inl e \<Rightarrow> False | Inr d \<Rightarrow> d < base)"

text \<open>The values assigned to the status of one hit, in order.\<close>

definition writes_to :: "(ref \<times> string) list \<Rightarrow> ref \<Rightarrow> string list" where
  "writes_to ws h = map snd (filter (\<lambda>w. fst w = h) ws)"

text \<open>How many hits of a list have the status \<open>c\<close>.\<close>

definition with_status :: "heap \<Rightarrow> ref list \<Rightarrow> string \<Rightarrow> nat" where
  "with_status hp hs c = length (filter (\<lambda>h. status (hp h) = Some c) hs)"

text \<open>The hits of \<^verbatim>\<open>all\<close> that the counts look at.\<close>

definition considered :: "int \<Rightarrow> ref list \<Rightarrow> ref list" where
  "considered topN xs = (if topN = 0 then xs else take (min (nat topN) (length xs)) xs)"

section \<open>Two runs\<close>

text \<open>
  A directory, a comparison of hits by their columns and a date reader to run the engine
  on. The directory answers with the entries of the identifiers it is asked about.
\<close>

definition numbers_of :: "BlastHit list \<Rightarrow> string list" where
  "numbers_of hits = concat (map (\<lambda>hit. map num (ids hit)) hits)"

definition lookup_in :: "GeneIDs \<Rightarrow> BlastHit list \<Rightarrow> string \<Rightarrow> error + GeneIDs" where
  "lookup_in dir hits em = Inr (filter (\<lambda>kv. fst kv \<in> set (numbers_of hits)) dir)"

definition same_columns :: "BlastHit \<Rightarrow> BlastHit \<Rightarrow> bool \<Rightarrow> bool" where
  "same_columns a b check_ids = (columns a = columns b)"

definition read_date :: "string \<Rightarrow> string \<Rightarrow> error + date" where
  "read_date c fmt =
     (if c = ''2014/03/01'' then Inr (2014, 3, 1)
      else if c = ''2014/06/15'' then Inr (2014, 6, 15)
      else if c = ''2014/06/14'' then Inr (2014, 6, 14)
      else if c = ''2015/01/10'' then Inr (2015, 1, 10)
      else Inl ValueError)"

definition gi :: "string \<Rightarrow> ID" where
  "gi n = \<lparr>db = ''gi'', num = n\<rparr>"

definition hit :: "string \<Rightarrow> ID list \<Rightarrow> string \<Rightarrow> BlastHit" where
  "hit q is cs = \<lparr>name = q, ids = is, columns = cs, status = None\<rparr>"

definition entry :: "string \<Rightarrow> string \<Rightarrow> string \<Rightarrow> fields" where
  "entry st rb cd = [(''Status'', st), (''ReplacedBy'', rb), (''CreateDate'', cd)]"

text \<open>
  The first run. Old search: hit 0 found again unchanged, hit 1 replaced by 201, hit 2
  suppressed, hit 3 replaced by 401 which the new search did not find, hit 4 live. New
  search: hit 5 is the copy of hit 0, hit 6 carries 201 and has the columns of hit 1,
  hit 7 was created after the old search, hit 8 the day before the youngest old entry,
  hit 9 on the same day.
\<close>

definition run1_dir :: GeneIDs where
  "run1_dir =
     [(''100'', entry ''live'' [] ''2014/03/01''),
      (''200'', entry ''replaced'' ''201'' ''2014/03/01''),
      (''300'', entry ''suppressed'' [] ''2014/03/01''),
      (''400'', entry ''replaced'' ''401'' ''2014/06/15''),
      (''500'', entry ''live'' [] ''2014/03/01''),
      (''201'', entry ''live'' [] ''2015/01/10''),
      (''600'', entry ''live'' [] ''2015/01/10''),
      (''700'', entry ''live'' [] ''2014/06/14''),
      (''800'', entry ''live'' [] ''2014/06/15'')]"

definition run1_heap :: heap where
  "run1_heap =
     (\<lambda>r. hit [] [] [])
      (0 := hit ''Q1'' [gi ''100''] ''a'',
       1 := hit ''Q1'' [gi ''200''] ''b'',
       2 := hit ''Q1'' [gi ''300''] ''c'',
       3 := hit ''Q1'' [gi ''400''] ''d'',
       4 := hit ''Q1'' [gi ''500''] ''e'',
       5 := hit ''Q1'' [gi ''100''] ''a'',
       6 := hit ''Q1'' [gi ''201''] ''b'',
       7 := hit ''Q1'' [gi ''600''] ''f'',
       8 := hit ''Q1'' [gi ''700''] ''g'',
       9 := hit ''Q1'' [gi ''800''] ''h'')"

text \<open>The matcher of the first run tags the two copies and leaves the rest unknown.\<close>

definition run1_match :: "heap \<Rightarrow> ref list \<Rightarrow> ref list \<Rightarrow> heap \<times> hits_dict \<times> hits_dict" where
  "run1_match hp new old =
     (hp(0 := (hp 0)\<lparr>status := Some ''equal''\<rparr>, 5 := (hp 5)\<lparr>status := Some ''equal''\<rparr>),
      \<lparr>b_all = new, b_unknown = [6, 7, 8, 9], b_same = [5], b_similar = []\<rparr>,
      \<lparr>b_all = old, b_unknown = [1, 2, 3, 4], b_same = [0], b_similar = []\<rparr>)"

definition run1_env :: blast_hit where
  "run1_env = \<lparr>compare_blasts = run1_match, get_idlist = lookup_in run1_dir,
               compare_hit = same_columns, strptime = read_date\<rparr>"

definition run1 :: CompareBLASTs where
  "run1 = init run1_heap [0, 1, 2, 3, 4] [5, 6, 7, 8, 9] ''test@test.com'' ''Q1''"

text \<open>
  The second run. Old search: hit 0 is live, hit 1 has no identifier under \<^verbatim>\<open>'gi'\<close>.
  The new search found hit 2, created on the day of the old entry.
\<close>

definition run2_dir :: GeneIDs where
  "run2_dir =
     [(''100'', entry ''live'' [] ''2014/03/01''),
      (''900'', entry ''live'' [] ''2014/03/01'')]"

definition run2_heap :: heap where
  "run2_heap =
     (\<lambda>r. hit [] [] [])
      (0 := hit ''Q1'' [gi ''100''] ''a'',
       1 := hit ''Q1'' [\<lparr>db = ''ref'', num = ''XP_1''\<rparr>] ''b'',
       2 := hit ''Q1'' [gi ''900''] ''c'')"

definition run2_match :: "heap \<Rightarrow> ref list \<Rightarrow> ref list \<Rightarrow> heap \<times> hits_dict \<times> hits_dict" where
  "run2_match hp new old =
     (hp,
      \<lparr>b_all = new, b_unknown = new, b_same = [], b_similar = []\<rparr>,
      \<lparr>b_all = old, b_unknown = old, b_same = [], b_similar = []\<rparr>)"

definition run2_env :: blast_hit where
  "run2_env = \<lparr>compare_blasts = run2_match, get_idlist = lookup_in run2_dir,
               compare_hit = same_columns, strptime = read_date\<rparr>"

definition run2 :: CompareBLASTs where
  "run2 = init run2_heap [0, 1] [2] ''test@test.com'' ''Q1''"

text \<open>The objects the two runs end in.\<close>

definition tagged :: "string \<Rightarrow> ID list \<Rightarrow> string \<Rightarrow> string \<Rightarrow> BlastHit" where
  "tagged q is cs st = \<lparr>name = q, ids = is, columns = cs, status = Some st\<rparr>"

definition run1_result :: CompareBLASTs where
  "run1_result =
     \<lparr>heap = (\<lambda>r. hit [] [] [])
        (0 := tagged ''Q1'' [gi ''100''] ''a'' ''equal'',
         5 := tagged ''Q1'' [gi ''100''] ''a'' ''equal'',
         1 := tagged ''Q1'' [gi ''200''] ''b'' ''replaced'',
         2 := tagged ''Q1'' [gi ''300''] ''c'' ''suppressed'',
         4 := tagged ''Q1'' [gi ''500''] ''e'' ''live'',
         6 := tagged ''Q1'' [gi ''201''] ''b'' ''replacement'',
         3 := tagged ''Q1'' [gi ''400''] ''d'' ''live'',
         7 := tagged ''Q1'' [gi ''600''] ''f'' ''new'',
         8 := tagged ''Q1'' [gi ''700''] ''g'' ''strange'',
         9 := tagged ''Q1'' [gi ''800''] ''h'' ''new''),
      input_old_hits = [0, 1, 2, 3, 4], input_new_hits = [5, 6, 7, 8, 9],
      email = ''test@test.com'', query = ''Q1'',
      new_hits = \<lparr>new_all = [5, 6, 7, 8, 9], new_unknown = [7, 8, 9], new_same = [5],
                  new_similar = [], new_replacement = [6], new_new = [7, 9], new_old = [8]\<rparr>,
      old_hits = \<lparr>old_all = [0, 1, 2, 3, 4], old_unknown = [1, 2, 3, 4], old_same = [0],
                  old_similar = [], old_lost = [4, 3], old_suppressed = [2],
                  old_replacement = [1]\<rparr>,
      oldGeneIDs =
        [(''100'', entry ''live'' [] ''2014/03/01''),
         (''200'', entry ''replaced'' ''201'' ''2014/03/01''),
         (''300'', entry ''suppressed'' [] ''2014/03/01''),
         (''400'', entry ''replaced'' ''401'' ''2014/06/15''),
         (''500'', entry ''live'' [] ''2014/03/01'')],
      newGeneIDs =
        [(''600'', entry ''live'' [] ''2015/01/10''),
         (''700'', entry ''live'' [] ''2014/06/14''),
         (''800'', entry ''live'' [] ''2014/06/15'')],
      calls = [[0, 1, 2, 3, 4], [7, 8, 9]],
      writes = [(1, ''replaced''), (2, ''suppressed''), (3, ''replaced''), (4, ''live''),
                (6, ''replacement''), (3, ''live''), (7, ''new''), (8, ''strange''),
                (9, ''new'')]\<rparr>"

definition run2_result :: CompareBLASTs where
  "run2_result =
     \<lparr>heap = (\<lambda>r. hit [] [] [])
        (1 := hit ''Q1'' [\<lparr>db = ''ref'', num = ''XP_1''\<rparr>] ''b'',
         0 := tagged ''Q1'' [gi ''100''] ''a'' ''live'',
         2 := tagged ''Q1'' [gi ''900''] ''c'' ''new''),
      input_old_hits = [0, 1], input_new_hits = [2],
      email = ''test@test.com'', query = ''Q1'',
      new_hits = \<lparr>new_all = [2], new_unknown = [2], new_same = [], new_similar = [],
                  new_replacement = [], new_new = [2], new_old = []\<rparr>,
      old_hits = \<lparr>old_all = [0, 1], old_unknown = [0, 1], old_same = [], old_similar = [],
                  old_lost = [0], old_suppressed = [], old_replacement = []\<rparr>,
      oldGeneIDs = [(''100'', entry ''live'' [] ''2014/03/01'')],
      newGeneIDs = [(''900'', entry ''live'' [] ''2014/03/01'')],
      calls = [[0, 1], [2]],
      writes = [(0, ''live''), (2, ''new'')]\<rparr>"










section \<open>Properties\<close>

subsection \<open>Status writes\<close>

lemma set_status_simps [simp]:
  "heap (set_status s h v) = (heap s)(h := (heap s h)\<lparr>status := Some v\<rparr>)"
  "writes (set_status s h v) = writes s @ [(h, v)]"
  "new_hits (set_status s h v) = new_hits s"
  "old_hits (set_status s h v) = old_hits s"
  "oldGeneIDs (set_status s h v) = oldGeneIDs s"
  "newGeneIDs (set_status s h v) = newGeneIDs s"
  "calls (set_status s h v) = calls s"
  "email (set_status s h v) = email s"
  by (simp_all add: set_status_def)

lemma ids_set_status [simp]: "ids (heap (set_status s h v) x) = ids (heap s x)"
  by simp

lemma confirm_simps [simp]:
  "new_unknown (new_hits (confirm s h k)) = pop (new_unknown (new_hits s)) k"
  "new_replacement (new_hits (confirm s h k)) =
     new_replacement (new_hits s) @ [new_unknown (new_hits s) ! k]"
  "new_all (new_hits (confirm s h k)) = new_all (new_hits s)"
  "new_same (new_hits (confirm s h k)) = new_same (new_hits s)"
  "new_similar (new_hits (confirm s h k)) = new_similar (new_hits s)"
  "new_new (new_hits (confirm s h k)) = new_new (new_hits s)"
  "new_old (new_hits (confirm s h k)) = new_old (new_hits s)"
  "old_hits (confirm s h k) =
     (old_hits s)\<lparr>old_replacement := old_replacement (old_hits s) @ [h]\<rparr>"
  "oldGeneIDs (confirm s h k) = oldGeneIDs s"
  "newGeneIDs (confirm s h k) = newGeneIDs s"
  "calls (confirm s h k) = calls s"
  "email (confirm s h k) = email s"
  "writes (confirm s h k) = writes s @ [(new_unknown (new_hits s) ! k, ''replacement'')]"
  "heap (confirm s h k) =
     (heap s)(new_unknown (new_hits s) ! k :=
        (heap s (new_unknown (new_hits s) ! k))\<lparr>status := Some ''replacement''\<rparr>)"
  by (simp_all add: confirm_def Let_def)

lemma lose_simps [simp]:
  "new_hits (lose s h) = new_hits s"
  "old_hits (lose s h) = (old_hits s)\<lparr>old_lost := old_lost (old_hits s) @ [h]\<rparr>"
  "oldGeneIDs (lose s h) = oldGeneIDs s"
  "newGeneIDs (lose s h) = newGeneIDs s"
  "calls (lose s h) = calls s"
  "email (lose s h) = email s"
  "writes (lose s h) = writes s @ [(h, ''live'')]"
  "heap (lose s h) = (heap s)(h := (heap s h)\<lparr>status := Some ''live''\<rparr>)"
  by (simp_all add: lose_def)

lemma tag_new_simps [simp]:
  "new_unknown (new_hits (tag_new s h b)) = new_unknown (new_hits s)"
  "new_replacement (new_hits (tag_new s h b)) = new_replacement (new_hits s)"
  "new_all (new_hits (tag_new s h b)) = new_all (new_hits s)"
  "new_same (new_hits (tag_new s h b)) = new_same (new_hits s)"
  "new_similar (new_hits (tag_new s h b)) = new_similar (new_hits s)"
  "new_new (new_hits (tag_new s h b)) = new_new (new_hits s) @ (if b then [] else [h])"
  "new_old (new_hits (tag_new s h b)) = new_old (new_hits s) @ (if b then [h] else [])"
  "old_hits (tag_new s h b) = old_hits s"
  "oldGeneIDs (tag_new s h b) = oldGeneIDs s"
  "newGeneIDs (tag_new s h b) = newGeneIDs s"
  "calls (tag_new s h b) = calls s"
  "email (tag_new s h b) = email s"
  "writes (tag_new s h b) = writes s @ [(h, if b then ''strange'' else ''new'')]"
  "heap (tag_new s h b) =
     (heap s)(h := (heap s h)\<lparr>status := Some (if b then ''strange'' else ''new'')\<rparr>)"
  by (simp_all add: tag_new_def)

subsection \<open>The old hits without a copy\<close>

lemma oldOnly_append_Inr:
  assumes "oldOnly_append oo st h = Inr oo'"
  shows "mset (live oo') + mset (replaced oo') + mset (suppressed oo') =
           mset (live oo) + mset (replaced oo) + mset (suppressed oo) + {#h#}"
    and "replaced oo' = replaced oo @ (if st = ''replaced'' then [h] else [])"
  using assms by (auto simp: oldOnly_append_def split: if_splits)

lemma classify_old_hit_no_gi:
  "\<not> has_gi (heap s h) \<Longrightarrow> classify_old_hit (s, oo) h = Inr (s, oo)"
  by (simp add: classify_old_hit_def has_gi_def)

lemma classify_old_hit_gi:
  assumes "classify_old_hit (s, oo) h = Inr (s', oo')" and "has_gi (heap s h)"
  shows "\<exists>st. s' = set_status s h st \<and> oldOnly_append oo st h = Inr oo'"
  using assms
  by (auto simp: classify_old_hit_def has_gi_def split: option.splits sum.splits)

lemma has_gi_ids: "ids a = ids b \<Longrightarrow> has_gi a = has_gi b"
  by (simp add: has_gi_def)

lemma classify_old_hit_frame:
  assumes "classify_old_hit (s, oo) h = Inr (s', oo')"
  shows "new_hits s' = new_hits s \<and> old_hits s' = old_hits s \<and> oldGeneIDs s' = oldGeneIDs s \<and>
         newGeneIDs s' = newGeneIDs s \<and> calls s' = calls s \<and> email s' = email s \<and>
         (\<forall>x. ids (heap s' x) = ids (heap s x))"
proof (cases "has_gi (heap s h)")
  case True
  from classify_old_hit_gi [OF assms True] show ?thesis by auto
next
  case False
  with assms show ?thesis by (simp add: classify_old_hit_no_gi)
qed

lemma classify_old_Cons:
  assumes "classify_old (h # hs) (s, oo) = Inr (s', oo')"
  obtains s1 oo1 where "classify_old_hit (s, oo) h = Inr (s1, oo1)"
    and "classify_old hs (s1, oo1) = Inr (s', oo')"
proof (cases "classify_old_hit (s, oo) h")
  case (Inl e)
  with assms show ?thesis by simp
next
  case (Inr so)
  obtain s1 oo1 where "so = (s1, oo1)" by (cases so)
  with Inr assms that show ?thesis by simp
qed

lemma classify_old_frame:
  "classify_old hs (s, oo) = Inr (s', oo') \<Longrightarrow>
     new_hits s' = new_hits s \<and> old_hits s' = old_hits s \<and> oldGeneIDs s' = oldGeneIDs s \<and>
     newGeneIDs s' = newGeneIDs s \<and> calls s' = calls s \<and> email s' = email s \<and>
     (\<forall>x. ids (heap s' x) = ids (heap s x))"
proof (induction hs arbitrary: s oo)
  case Nil
  then show ?case by simp
next
  case (Cons h hs)
  from Cons.prems obtain s1 oo1 where
    step: "classify_old_hit (s, oo) h = Inr (s1, oo1)" and
    rest: "classify_old hs (s1, oo1) = Inr (s', oo')"
    by (rule classify_old_Cons)
  from classify_old_hit_frame [OF step] Cons.IH [OF rest] show ?case by simp
qed

lemma classify_old_hit_count:
  assumes step: "classify_old_hit (s, oo) h = Inr (s1, oo1)"
  shows "mset (live oo1) + mset (replaced oo1) + mset (suppressed oo1) =
      mset (live oo) + mset (replaced oo) + mset (suppressed oo) +
      (if has_gi (heap s h) then {#h#} else {#})"
proof (cases "has_gi (heap s h)")
  case True
  from classify_old_hit_gi [OF step True] obtain st where
    "oldOnly_append oo st h = Inr oo1" by blast
  from oldOnly_append_Inr(1) [OF this] True show ?thesis by simp
next
  case False
  from step have "oo1 = oo" by (simp add: classify_old_hit_no_gi [OF False])
  with False show ?thesis by simp
qed

lemma classify_old_count:
  "classify_old hs (s, oo) = Inr (s', oo') \<Longrightarrow>
     mset (live oo') + mset (replaced oo') + mset (suppressed oo') =
       mset (live oo) + mset (replaced oo) + mset (suppressed oo) +
       mset (filter (\<lambda>h. has_gi (heap s h)) hs)"
proof (induction hs arbitrary: s oo)
  case Nil
  then show ?case by simp
next
  case (Cons h hs)
  from Cons.prems obtain s1 oo1 where
    step: "classify_old_hit (s, oo) h = Inr (s1, oo1)" and
    rest: "classify_old hs (s1, oo1) = Inr (s', oo')"
    by (rule classify_old_Cons)
  have same: "\<And>x. has_gi (heap s1 x) = has_gi (heap s x)"
    using classify_old_hit_frame [OF step] by (simp add: has_gi_def)
  from Cons.IH [OF rest] classify_old_hit_count [OF step] same show ?case by simp
qed

lemma classify_old_hit_writes:
  assumes step: "classify_old_hit (s, oo) h = Inr (s1, oo1)"
  shows "\<exists>W. writes s1 = writes s @ W \<and> map fst W = (if has_gi (heap s h) then [h] else []) \<and>
           (\<forall>x \<in> set (replaced oo1). x \<in> set (replaced oo) \<or> (x, ''replaced'') \<in> set W)"
proof (cases "has_gi (heap s h)")
  case True
  from classify_old_hit_gi [OF step True] obtain st where
    st: "s1 = set_status s h st" "oldOnly_append oo st h = Inr oo1" by blast
  have r: "replaced oo1 = replaced oo @ (if st = ''replaced'' then [h] else [])"
    by (rule oldOnly_append_Inr(2) [OF st(2)])
  have "writes s1 = writes s @ [(h, st)]" using st(1) by simp
  moreover have "map fst [(h, st)] = (if has_gi (heap s h) then [h] else [])"
    using True by simp
  moreover have "\<forall>x \<in> set (replaced oo1). x \<in> set (replaced oo) \<or> (x, ''replaced'') \<in> set [(h, st)]"
    unfolding r by auto
  ultimately show ?thesis by blast
next
  case False
  from step have "s1 = s \<and> oo1 = oo" by (simp add: classify_old_hit_no_gi [OF False])
  with False show ?thesis by simp
qed

lemma classify_old_writes:
  "classify_old hs (s, oo) = Inr (s', oo') \<Longrightarrow>
     \<exists>W. writes s' = writes s @ W \<and> map fst W = filter (\<lambda>h. has_gi (heap s h)) hs \<and>
         (\<forall>h \<in> set (replaced oo'). h \<in> set (replaced oo) \<or> (h, ''replaced'') \<in> set W)"
proof (induction hs arbitrary: s oo)
  case Nil
  then show ?case by simp
next
  case (Cons h hs)
  from Cons.prems obtain s1 oo1 where
    step: "classify_old_hit (s, oo) h = Inr (s1, oo1)" and
    rest: "classify_old hs (s1, oo1) = Inr (s', oo')"
    by (rule classify_old_Cons)
  have same: "\<And>x. has_gi (heap s1 x) = has_gi (heap s x)"
    using classify_old_hit_frame [OF step] by (simp add: has_gi_def)
  from Cons.IH [OF rest] obtain W where
    W: "writes s' = writes s1 @ W" "map fst W = filter (\<lambda>h. has_gi (heap s1 h)) hs"
       "\<forall>h \<in> set (replaced oo'). h \<in> set (replaced oo1) \<or> (h, ''replaced'') \<in> set W"
    by blast
  from classify_old_hit_writes [OF step] obtain W1 where
    W1: "writes s1 = writes s @ W1" "map fst W1 = (if has_gi (heap s h) then [h] else [])"
        "\<forall>x \<in> set (replaced oo1). x \<in> set (replaced oo) \<or> (x, ''replaced'') \<in> set W1"
    by blast
  have "writes s' = writes s @ (W1 @ W)" using W(1) W1(1) by simp
  moreover have "map fst (W1 @ W) = filter (\<lambda>h. has_gi (heap s h)) (h # hs)"
    using W(2) W1(2) same by simp
  moreover have "\<forall>x \<in> set (replaced oo'). x \<in> set (replaced oo) \<or> (x, ''replaced'') \<in> set (W1 @ W)"
    using W(3) W1(3) by auto
  ultimately show ?case by blast
qed

subsection \<open>Looking for the replacing hit\<close>

lemma pop_mset: "k < length xs \<Longrightarrow> mset (pop xs k) + {#xs ! k#} = mset xs"
proof -
  assume k: "k < length xs"
  have "mset xs = mset (take k xs @ xs ! k # drop (Suc k) xs)"
    using id_take_nth_drop [OF k] by simp
  then show ?thesis by (simp add: pop_def)
qed

lemma pop_subset: "set (pop xs k) \<subseteq> set xs"
  by (auto simp: pop_def dest: in_set_takeD in_set_dropD)

lemma pop_distinct:
  assumes "distinct xs" and k: "k < length xs"
  shows "distinct (pop xs k) \<and> xs ! k \<notin> set (pop xs k)"
proof -
  have "distinct (take k xs @ xs ! k # drop (Suc k) xs)"
    using id_take_nth_drop [OF k] assms(1) by simp
  then show ?thesis by (auto simp: pop_def)
qed

lemma scan_unknown_Some:
  "scan_unknown env hp h new_id U k0 = Inr (Some k) \<Longrightarrow>
     \<exists>n i. new_id = Some n \<and> k = k0 + i \<and> i < length U \<and> replaces env hp h n (U ! i) \<and>
           (\<forall>j < i. \<not> replaces env hp h n (U ! j))"
proof (induction U arbitrary: k0)
  case Nil
  then show ?case by simp
next
  case (Cons u U)
  from Cons.prems obtain n where n: "new_id = Some n" by (cases new_id) simp_all
  show ?case
  proof (cases "replaces env hp h n u")
    case True
    with Cons.prems n have "k = k0" by (simp add: replaces_def)
    with True n show ?thesis by (intro exI [of _ n] exI [of _ 0]) simp
  next
    case False
    with Cons.prems n have "scan_unknown env hp h new_id U (Suc k0) = Inr (Some k)"
      by (auto simp: replaces_def split: if_splits)
    from Cons.IH [OF this] obtain m i where
      i: "new_id = Some m" "k = Suc k0 + i" "i < length U" "replaces env hp h m (U ! i)"
         "\<forall>j < i. \<not> replaces env hp h m (U ! j)" by blast
    from i(1) n have mn: "m = n" by simp
    have "\<forall>j < Suc i. \<not> replaces env hp h n ((u # U) ! j)"
      using i(5) False mn by (auto simp: less_Suc_eq_0_disj)
    with i mn n show ?thesis
      by (intro exI [of _ n] exI [of _ "Suc i"]) simp
  qed
qed

lemma scan_unknown_None:
  "scan_unknown env hp h (Some n) U k0 = Inr None \<longleftrightarrow> (\<forall>u \<in> set U. \<not> replaces env hp h n u)"
  by (induction U arbitrary: k0) (auto simp: replaces_def)

lemma scan_unknown_bound:
  "scan_unknown env hp h (Some n) U k0 \<noteq> Inl e"
  by (induction U arbitrary: k0) auto

lemma scan_unknown_found:
  assumes "\<exists>u \<in> set U. replaces env hp h n u"
  shows "\<exists>i. scan_unknown env hp h (Some n) U 0 = Inr (Some i) \<and> i < length U \<and>
             replaces env hp h n (U ! i) \<and> (\<forall>j < i. \<not> replaces env hp h n (U ! j))"
proof (cases "scan_unknown env hp h (Some n) U 0")
  case (Inl e)
  then show ?thesis by (simp add: scan_unknown_bound)
next
  case (Inr r)
  show ?thesis
  proof (cases r)
    case None
    with Inr assms show ?thesis by (simp add: scan_unknown_None)
  next
    case (Some k)
    from scan_unknown_Some [OF Inr [unfolded Some]] Inr Some show ?thesis by auto
  qed
qed

lemma link_hit_Inr:
  assumes "link_hit env (s, n0) h = Inr (s', n')"
  shows "read_new_id (oldGeneIDs s) (ids (heap s h)) n0 = Inr n' \<and>
         ((\<exists>k. scan_unknown env (heap s) h n' (new_unknown (new_hits s)) 0 = Inr (Some k) \<and>
               s' = confirm s h k) \<or>
          (scan_unknown env (heap s) h n' (new_unknown (new_hits s)) 0 = Inr None \<and>
               s' = lose s h))"
proof (cases "read_new_id (oldGeneIDs s) (ids (heap s h)) n0")
  case (Inl e)
  with assms show ?thesis by (simp add: link_hit_def)
next
  case (Inr m)
  note r = Inr
  show ?thesis
  proof (cases "scan_unknown env (heap s) h m (new_unknown (new_hits s)) 0")
    case (Inl e)
    with assms r show ?thesis by (simp add: link_hit_def)
  next
    case (Inr q)
    with assms r show ?thesis by (cases q) (simp_all add: link_hit_def)
  qed
qed

lemma link_replaced_Cons:
  assumes "link_replaced env (h # hs) (s, n0) = Inr (s', n')"
  obtains s1 n1 where "link_hit env (s, n0) h = Inr (s1, n1)"
    and "link_replaced env hs (s1, n1) = Inr (s', n')"
proof (cases "link_hit env (s, n0) h")
  case (Inl e)
  with assms show ?thesis by simp
next
  case (Inr sn)
  obtain s1 n1 where "sn = (s1, n1)" by (cases sn)
  with Inr assms that show ?thesis by simp
qed

lemma link_hit_step:
  assumes "link_hit env (s, n0) h = Inr (s', n')"
  obtains (found) k where "k < length (new_unknown (new_hits s))" and "s' = confirm s h k"
  | (lost) "s' = lose s h"
proof -
  from link_hit_Inr [OF assms] consider
    k where "scan_unknown env (heap s) h n' (new_unknown (new_hits s)) 0 = Inr (Some k)"
      "s' = confirm s h k"
    | "s' = lose s h" by blast
  then show ?thesis
  proof cases
    case 1
    from scan_unknown_Some [OF 1(1)] have "k < length (new_unknown (new_hits s))" by auto
    with 1(2) found show ?thesis by blast
  next
    case 2
    with lost show ?thesis by blast
  qed
qed

lemma link_hit_frame:
  assumes "link_hit env (s, n0) h = Inr (s', n')"
  shows "oldGeneIDs s' = oldGeneIDs s \<and> newGeneIDs s' = newGeneIDs s \<and> calls s' = calls s \<and>
         email s' = email s \<and> (\<forall>x. ids (heap s' x) = ids (heap s x)) \<and>
         new_all (new_hits s') = new_all (new_hits s) \<and>
         new_same (new_hits s') = new_same (new_hits s) \<and>
         new_similar (new_hits s') = new_similar (new_hits s) \<and>
         new_new (new_hits s') = new_new (new_hits s) \<and>
         new_old (new_hits s') = new_old (new_hits s) \<and>
         old_all (old_hits s') = old_all (old_hits s) \<and>
         old_unknown (old_hits s') = old_unknown (old_hits s) \<and>
         old_same (old_hits s') = old_same (old_hits s) \<and>
         old_similar (old_hits s') = old_similar (old_hits s) \<and>
         old_suppressed (old_hits s') = old_suppressed (old_hits s)"
  using assms by (rule link_hit_step) simp_all

lemma link_replaced_frame:
  "link_replaced env hs (s, n0) = Inr (s', n') \<Longrightarrow>
     oldGeneIDs s' = oldGeneIDs s \<and> newGeneIDs s' = newGeneIDs s \<and> calls s' = calls s \<and>
     email s' = email s \<and> (\<forall>x. ids (heap s' x) = ids (heap s x)) \<and>
     new_all (new_hits s') = new_all (new_hits s) \<and>
     new_same (new_hits s') = new_same (new_hits s) \<and>
     new_similar (new_hits s') = new_similar (new_hits s) \<and>
     new_new (new_hits s') = new_new (new_hits s) \<and>
     new_old (new_hits s') = new_old (new_hits s) \<and>
     old_all (old_hits s') = old_all (old_hits s) \<and>
     old_unknown (old_hits s') = old_unknown (old_hits s) \<and>
     old_same (old_hits s') = old_same (old_hits s) \<and>
     old_similar (old_hits s') = old_similar (old_hits s) \<and>
     old_suppressed (old_hits s') = old_suppressed (old_hits s)"
proof (induction hs arbitrary: s n0)
  case Nil
  then show ?case by simp
next
  case (Cons h hs)
  from Cons.prems obtain s1 n1 where
    step: "link_hit env (s, n0) h = Inr (s1, n1)" and
    rest: "link_replaced env hs (s1, n1) = Inr (s', n')"
    by (rule link_replaced_Cons)
  from link_hit_frame [OF step] Cons.IH [OF rest] show ?case by simp
qed

lemma link_hit_count:
  assumes "link_hit env (s, n0) h = Inr (s', n')"
  shows "mset (new_unknown (new_hits s')) + mset (new_replacement (new_hits s')) =
           mset (new_unknown (new_hits s)) + mset (new_replacement (new_hits s))"
    and "mset (old_lost (old_hits s')) + mset (old_replacement (old_hits s')) =
           mset (old_lost (old_hits s)) + mset (old_replacement (old_hits s)) + {#h#}"
  using assms
proof (atomize (full), rule link_hit_step)
  fix k assume "k < length (new_unknown (new_hits s))" "s' = confirm s h k"
  then show "mset (new_unknown (new_hits s')) + mset (new_replacement (new_hits s')) =
           mset (new_unknown (new_hits s)) + mset (new_replacement (new_hits s)) \<and>
      mset (old_lost (old_hits s')) + mset (old_replacement (old_hits s')) =
           mset (old_lost (old_hits s)) + mset (old_replacement (old_hits s)) + {#h#}"
    using pop_mset [of k "new_unknown (new_hits s)"] by (simp add: ac_simps)
next
  assume "s' = lose s h"
  then show "mset (new_unknown (new_hits s')) + mset (new_replacement (new_hits s')) =
           mset (new_unknown (new_hits s)) + mset (new_replacement (new_hits s)) \<and>
      mset (old_lost (old_hits s')) + mset (old_replacement (old_hits s')) =
           mset (old_lost (old_hits s)) + mset (old_replacement (old_hits s)) + {#h#}"
    by simp
qed

lemma link_replaced_count:
  "link_replaced env hs (s, n0) = Inr (s', n') \<Longrightarrow>
     mset (new_unknown (new_hits s')) + mset (new_replacement (new_hits s')) =
       mset (new_unknown (new_hits s)) + mset (new_replacement (new_hits s)) \<and>
     mset (old_lost (old_hits s')) + mset (old_replacement (old_hits s')) =
       mset (old_lost (old_hits s)) + mset (old_replacement (old_hits s)) + mset hs"
proof (induction hs arbitrary: s n0)
  case Nil
  then show ?case by simp
next
  case (Cons h hs)
  from Cons.prems obtain s1 n1 where
    step: "link_hit env (s, n0) h = Inr (s1, n1)" and
    rest: "link_replaced env hs (s1, n1) = Inr (s', n')"
    by (rule link_replaced_Cons)
  from link_hit_count [OF step] Cons.IH [OF rest] show ?case by simp
qed

text \<open>The buckets only grow at the end, and the unknown hits only shrink.\<close>

lemma link_hit_grow:
  assumes "link_hit env (s, n0) h = Inr (s', n')"
  shows "set (new_unknown (new_hits s')) \<subseteq> set (new_unknown (new_hits s)) \<and>
         (distinct (new_unknown (new_hits s)) \<longrightarrow> distinct (new_unknown (new_hits s'))) \<and>
         set (new_replacement (new_hits s)) \<subseteq> set (new_replacement (new_hits s')) \<and>
         set (old_replacement (old_hits s)) \<subseteq> set (old_replacement (old_hits s')) \<and>
         set (old_lost (old_hits s)) \<subseteq> set (old_lost (old_hits s'))"
  using assms
proof (rule link_hit_step)
  fix k assume "k < length (new_unknown (new_hits s))" "s' = confirm s h k"
  then show ?thesis
    using pop_subset [of "new_unknown (new_hits s)" k]
      pop_distinct [of "new_unknown (new_hits s)" k] by auto
next
  assume "s' = lose s h"
  then show ?thesis by auto
qed

lemma link_replaced_grow:
  "link_replaced env hs (s, n0) = Inr (s', n') \<Longrightarrow>
     set (new_unknown (new_hits s')) \<subseteq> set (new_unknown (new_hits s)) \<and>
     (distinct (new_unknown (new_hits s)) \<longrightarrow> distinct (new_unknown (new_hits s'))) \<and>
     set (new_replacement (new_hits s)) \<subseteq> set (new_replacement (new_hits s')) \<and>
     set (old_replacement (old_hits s)) \<subseteq> set (old_replacement (old_hits s')) \<and>
     set (old_lost (old_hits s)) \<subseteq> set (old_lost (old_hits s'))"
proof (induction hs arbitrary: s n0)
  case Nil
  then show ?case by simp
next
  case (Cons h hs)
  from Cons.prems obtain s1 n1 where
    step: "link_hit env (s, n0) h = Inr (s1, n1)" and
    rest: "link_replaced env hs (s1, n1) = Inr (s', n')"
    by (rule link_replaced_Cons)
  from link_hit_grow [OF step] Cons.IH [OF rest] show ?case by blast
qed

lemma link_hit_writes:
  assumes "link_hit env (s, n0) h = Inr (s', n')" and "distinct (new_unknown (new_hits s))"
  shows "\<exists>x v. writes s' = writes s @ [(x, v)] \<and>
           ((x \<in> set (new_unknown (new_hits s)) \<and> x \<notin> set (new_unknown (new_hits s')) \<and>
             v = ''replacement'') \<or>
            (x = h \<and> v = ''live''))"
  using assms(1)
proof (rule link_hit_step)
  fix k assume k: "k < length (new_unknown (new_hits s))" and s': "s' = confirm s h k"
  from pop_distinct [OF assms(2) k] k s' show ?thesis by simp
next
  assume "s' = lose s h"
  then show ?thesis by simp
qed

lemma link_replaced_writes:
  "link_replaced env hs (s, n0) = Inr (s', n') \<Longrightarrow> distinct hs \<Longrightarrow>
   distinct (new_unknown (new_hits s)) \<Longrightarrow> set hs \<inter> set (new_unknown (new_hits s)) = {} \<Longrightarrow>
     \<exists>W. writes s' = writes s @ W \<and> distinct (map fst W) \<and>
         (\<forall>w \<in> set W.
            (fst w \<in> set (new_unknown (new_hits s)) \<and> fst w \<notin> set (new_unknown (new_hits s')) \<and>
             snd w = ''replacement'') \<or>
            (fst w \<in> set hs \<and> snd w = ''live''))"
proof (induction hs arbitrary: s n0)
  case Nil
  then show ?case by simp
next
  case (Cons h hs)
  from Cons.prems(1) obtain s1 n1 where
    step: "link_hit env (s, n0) h = Inr (s1, n1)" and
    rest: "link_replaced env hs (s1, n1) = Inr (s', n')"
    by (rule link_replaced_Cons)
  let ?U = "new_unknown (new_hits s)"
  let ?U1 = "new_unknown (new_hits s1)"
  let ?U' = "new_unknown (new_hits s')"
  from link_hit_grow [OF step] Cons.prems(3)
  have U1: "set ?U1 \<subseteq> set ?U" "distinct ?U1" by simp_all
  from link_replaced_grow [OF rest] have U': "set ?U' \<subseteq> set ?U1" by simp
  from Cons.prems(2) have dh: "distinct hs" "h \<notin> set hs" by simp_all
  from Cons.prems(4) U1(1) have disj: "set hs \<inter> set ?U1 = {}" "h \<notin> set ?U" by auto
  from Cons.IH [OF rest dh(1) U1(2) disj(1)] obtain W where
    W: "writes s' = writes s1 @ W" "distinct (map fst W)"
       "\<forall>w \<in> set W. (fst w \<in> set ?U1 \<and> fst w \<notin> set ?U' \<and> snd w = ''replacement'') \<or>
                     (fst w \<in> set hs \<and> snd w = ''live'')" by blast
  from link_hit_writes [OF step Cons.prems(3)] obtain x v where
    xv: "writes s1 = writes s @ [(x, v)]"
        "(x \<in> set ?U \<and> x \<notin> set ?U1 \<and> v = ''replacement'') \<or> (x = h \<and> v = ''live'')"
    by blast
  have fresh: "x \<notin> fst ` set W"
  proof
    assume "x \<in> fst ` set W"
    then obtain w where w: "w \<in> set W" "fst w = x" by auto
    from W(3) w(1) have "fst w \<in> set ?U1 \<or> fst w \<in> set hs" by blast
    with w(2) xv(2) dh(2) disj(2) U1(1) Cons.prems(4) show False by auto
  qed
  have "writes s' = writes s @ ((x, v) # W)" using W(1) xv(1) by simp
  moreover have "distinct (map fst ((x, v) # W))" using W(2) fresh by simp
  moreover have "\<forall>w \<in> set ((x, v) # W).
      (fst w \<in> set ?U \<and> fst w \<notin> set ?U' \<and> snd w = ''replacement'') \<or>
      (fst w \<in> set (h # hs) \<and> snd w = ''live'')"
    using W(3) xv(2) U1(1) U' by auto
  ultimately show ?case by blast
qed

subsection \<open>New or strange\<close>

lemma classify_new_Cons:
  assumes "classify_new env base (h # hs) s = Inr s'"
  obtains s1 where "classify_new_hit env base s h = Inr s1"
    and "classify_new env base hs s1 = Inr s'"
  using assms by (cases "classify_new_hit env base s h") simp_all

lemma classify_new_hit_Inr:
  assumes "classify_new_hit env base s h = Inr s'"
  shows "(\<exists>d. create_date_of env (newGeneIDs s) (heap s h) = Inr d) \<and>
         s' = tag_new s h (older env (newGeneIDs s) base (heap s h))"
proof (cases "create_date_of env (newGeneIDs s) (heap s h)")
  case (Inl e)
  with assms show ?thesis by (simp add: classify_new_hit_def)
next
  case (Inr d)
  with assms have "s' = tag_new s h (d < base)" by (simp add: classify_new_hit_def)
  moreover from Inr have "older env (newGeneIDs s) base (heap s h) = (d < base)"
    by (simp add: older_def)
  moreover from Inr have "\<exists>d. create_date_of env (newGeneIDs s) (heap s h) = Inr d" by blast
  ultimately show ?thesis by simp
qed

lemma older_ids: "ids a = ids b \<Longrightarrow> older env g base a = older env g base b"
  by (simp add: older_def create_date_of_def)

lemma create_date_of_ids: "ids a = ids b \<Longrightarrow> create_date_of env g a = create_date_of env g b"
  by (simp add: create_date_of_def)

lemma classify_new_hit_frame:
  assumes "classify_new_hit env base s h = Inr s'"
  shows "old_hits s' = old_hits s \<and> oldGeneIDs s' = oldGeneIDs s \<and>
         newGeneIDs s' = newGeneIDs s \<and> calls s' = calls s \<and> email s' = email s \<and>
         (\<forall>x. ids (heap s' x) = ids (heap s x)) \<and>
         new_unknown (new_hits s') = new_unknown (new_hits s) \<and>
         new_replacement (new_hits s') = new_replacement (new_hits s) \<and>
         new_all (new_hits s') = new_all (new_hits s) \<and>
         new_same (new_hits s') = new_same (new_hits s) \<and>
         new_similar (new_hits s') = new_similar (new_hits s)"
  using classify_new_hit_Inr [OF assms] by simp

lemma classify_new_frame:
  "classify_new env base hs s = Inr s' \<Longrightarrow>
     old_hits s' = old_hits s \<and> oldGeneIDs s' = oldGeneIDs s \<and>
     newGeneIDs s' = newGeneIDs s \<and> calls s' = calls s \<and> email s' = email s \<and>
     (\<forall>x. ids (heap s' x) = ids (heap s x)) \<and>
     new_unknown (new_hits s') = new_unknown (new_hits s) \<and>
     new_replacement (new_hits s') = new_replacement (new_hits s) \<and>
     new_all (new_hits s') = new_all (new_hits s) \<and>
     new_same (new_hits s') = new_same (new_hits s) \<and>
     new_similar (new_hits s') = new_similar (new_hits s)"
proof (induction hs arbitrary: s)
  case Nil
  then show ?case by simp
next
  case (Cons h hs)
  from Cons.prems obtain s1 where
    step: "classify_new_hit env base s h = Inr s1" and
    rest: "classify_new env base hs s1 = Inr s'"
    by (rule classify_new_Cons)
  from classify_new_hit_frame [OF step] Cons.IH [OF rest] show ?case by simp
qed

lemma classify_new_result:
  "classify_new env base hs s = Inr s' \<Longrightarrow>
     new_new (new_hits s') =
       new_new (new_hits s) @ filter (\<lambda>h. \<not> older env (newGeneIDs s) base (heap s h)) hs \<and>
     new_old (new_hits s') =
       new_old (new_hits s) @ filter (\<lambda>h. older env (newGeneIDs s) base (heap s h)) hs \<and>
     writes s' = writes s @
       map (\<lambda>h. (h, if older env (newGeneIDs s) base (heap s h) then ''strange'' else ''new'')) hs \<and>
     (\<forall>h \<in> set hs. \<exists>d. create_date_of env (newGeneIDs s) (heap s h) = Inr d) \<and>
     (\<forall>x. status (heap s' x) =
        (if x \<in> set hs
         then Some (if older env (newGeneIDs s) base (heap s x) then ''strange'' else ''new'')
         else status (heap s x)))"
proof (induction hs arbitrary: s)
  case Nil
  then show ?case by simp
next
  case (Cons h hs)
  from Cons.prems obtain s1 where
    step: "classify_new_hit env base s h = Inr s1" and
    rest: "classify_new env base hs s1 = Inr s'"
    by (rule classify_new_Cons)
  note fr = classify_new_hit_frame [OF step]
  have g: "newGeneIDs s1 = newGeneIDs s" using fr by simp
  have o: "\<And>x. older env (newGeneIDs s) base (heap s1 x) = older env (newGeneIDs s) base (heap s x)"
    by (rule older_ids) (simp add: fr)
  have c: "\<And>x. create_date_of env (newGeneIDs s) (heap s1 x) = create_date_of env (newGeneIDs s) (heap s x)"
    by (rule create_date_of_ids) (simp add: fr)
  from classify_new_hit_Inr [OF step] have
    s1: "s1 = tag_new s h (older env (newGeneIDs s) base (heap s h))" and
    d: "\<exists>d. create_date_of env (newGeneIDs s) (heap s h) = Inr d" by simp_all
  have st: "\<And>x. status (heap s1 x) =
      (if x = h then Some (if older env (newGeneIDs s) base (heap s h) then ''strange'' else ''new'')
       else status (heap s x))"
    by (simp add: s1)
  have nn: "new_new (new_hits s1) = new_new (new_hits s) @
      (if older env (newGeneIDs s) base (heap s h) then [] else [h])"
    and no: "new_old (new_hits s1) = new_old (new_hits s) @
      (if older env (newGeneIDs s) base (heap s h) then [h] else [])"
    and w: "writes s1 = writes s @
      [(h, if older env (newGeneIDs s) base (heap s h) then ''strange'' else ''new'')]"
    by (simp_all add: s1)
  from Cons.IH [OF rest] show ?case
    unfolding g o c st nn no w using d by auto
qed

subsection \<open>The date of the old search\<close>

lemma py_max_Inr:
  assumes "py_max ds = Inr base"
  shows "ds \<noteq> [] \<and> base = Max (set ds)"
proof (cases ds)
  case Nil
  with assms show ?thesis by simp
next
  case (Cons x xs)
  with assms have "base = fold max xs x" by simp
  with Max.set_eq_fold [of x xs] Cons show ?thesis by simp
qed

lemma date_oldsearch_Inr:
  assumes "date_oldsearch env g = Inr base"
  shows "\<exists>ds. create_dates env (dict_values g) = Inr ds \<and> ds \<noteq> [] \<and> base = Max (set ds)"
  using assms
  by (cases "create_dates env (dict_values g)") (simp_all add: date_oldsearch_def py_max_Inr)

lemma date_oldsearch_empty: "date_oldsearch env [] = Inl ValueError"
  by (simp add: date_oldsearch_def dict_values_def)

lemma create_dates_Inr:
  "create_dates env rs = Inr ds \<Longrightarrow>
     list_all2 (\<lambda>r d. \<exists>c. getitem r ''CreateDate'' = Inr c \<and> strptime env c ''%Y/%m/%d'' = Inr d) rs ds"
proof (induction rs arbitrary: ds)
  case Nil
  then show ?case by simp
next
  case (Cons r rs)
  then show ?case by (auto split: sum.splits)
qed

subsection \<open>The steps of \<^verbatim>\<open>compare\<close>\<close>

lemma match_hits_simps:
  assumes "compare_blasts env (heap s) (input_new_hits s) (input_old_hits s) = (hp, pn, po)"
  shows "heap (match_hits env s) = hp"
    and "new_hits (match_hits env s) =
           \<lparr>new_all = b_all pn, new_unknown = b_unknown pn, new_same = b_same pn,
            new_similar = b_similar pn, new_replacement = [], new_new = [], new_old = []\<rparr>"
    and "old_hits (match_hits env s) =
           \<lparr>old_all = b_all po, old_unknown = b_unknown po, old_same = b_same po,
            old_similar = b_similar po, old_lost = [], old_suppressed = [],
            old_replacement = []\<rparr>"
    and "calls (match_hits env s) = calls s"
    and "writes (match_hits env s) = writes s"
    and "email (match_hits env s) = email s"
  using assms by (simp_all add: match_hits_def)

lemma finish_Inr:
  assumes "finish env s = Inr s'"
  obtains g base where
    "get_idlist env (map (heap s) (new_unknown (new_hits s))) (email s) = Inr g"
    "date_oldsearch env (oldGeneIDs s) = Inr base"
    "classify_new env base (new_unknown (new_hits s))
       (s\<lparr>calls := calls s @ [new_unknown (new_hits s)], newGeneIDs := g,
          new_hits := (new_hits s)\<lparr>new_new := [], new_old := []\<rparr>\<rparr>) = Inr s'"
proof (cases "get_idlist env (map (heap s) (new_unknown (new_hits s))) (email s)")
  case (Inl e)
  with assms show ?thesis by (simp add: finish_def resolve_def)
next
  case (Inr g)
  note g = Inr
  show ?thesis
  proof (cases "date_oldsearch env (oldGeneIDs s)")
    case (Inl e)
    with assms g show ?thesis by (simp add: finish_def resolve_def Let_def)
  next
    case (Inr base)
    with assms g have "classify_new env base (new_unknown (new_hits s))
       (s\<lparr>calls := calls s @ [new_unknown (new_hits s)], newGeneIDs := g,
          new_hits := (new_hits s)\<lparr>new_new := [], new_old := []\<rparr>\<rparr>) = Inr s'"
      by (simp add: finish_def resolve_def Let_def)
    with g Inr that show ?thesis by blast
  qed
qed

lemma compare_Inr:
  assumes "compare env s0 = Inr s'"
    and m: "compare_blasts env (heap s0) (input_new_hits s0) (input_old_hits s0) = (hp, pn, po)"
  obtains g s3 oo s4 n4 where
    "get_idlist env (map hp (b_all po)) (email s0) = Inr g"
    "classify_old (b_unknown po)
       ((match_hits env s0)\<lparr>calls := calls s0 @ [b_all po], oldGeneIDs := g\<rparr>,
        \<lparr>live = [], replaced = [], suppressed = []\<rparr>) = Inr (s3, oo)"
    "link_replaced env (replaced oo) (open_buckets s3 oo, None) = Inr (s4, n4)"
    "finish env s4 = Inr s'"
proof (cases "get_idlist env (map hp (b_all po)) (email s0)")
  case (Inl e)
  with assms show ?thesis
    by (simp add: compare_def Let_def resolve_def match_hits_simps [OF m])
next
  case (Inr g)
  note g = Inr
  let ?s2 = "(match_hits env s0)\<lparr>calls := calls s0 @ [b_all po], oldGeneIDs := g\<rparr>"
  have c: "compare env s0 =
      (case classify_old (b_unknown po) (?s2, \<lparr>live = [], replaced = [], suppressed = []\<rparr>) of
         Inl e \<Rightarrow> Inl e
       | Inr (s3, oo) \<Rightarrow>
           (case link_replaced env (replaced oo) (open_buckets s3 oo, None) of
              Inl e \<Rightarrow> Inl e
            | Inr (s4, new_id) \<Rightarrow> finish env s4))"
    using g by (simp add: compare_def Let_def resolve_def match_hits_simps [OF m])
  show ?thesis
  proof (cases "classify_old (b_unknown po) (?s2, \<lparr>live = [], replaced = [], suppressed = []\<rparr>)")
    case (Inl e)
    with c assms(1) show ?thesis by simp
  next
    case (Inr so)
    obtain s3 oo where so: "so = (s3, oo)" by (cases so)
    note p1 = Inr [unfolded so]
    show ?thesis
    proof (cases "link_replaced env (replaced oo) (open_buckets s3 oo, None)")
      case (Inl e)
      with c p1 assms(1) show ?thesis by simp
    next
      case (Inr sn)
      obtain s4 n4 where sn: "sn = (s4, n4)" by (cases sn)
      note p2 = Inr [unfolded sn]
      from c p1 p2 assms(1) have "finish env s4 = Inr s'" by simp
      with g p1 p2 that show ?thesis by blast
    qed
  qed
qed

subsection \<open>The two runs, evaluated\<close>

lemmas run_defs = run1_env_def run1_def run1_heap_def run1_dir_def run1_match_def
  lookup_in_def numbers_of_def same_columns_def read_date_def gi_def hit_def entry_def init_def
  run2_env_def run2_def run2_heap_def run2_dir_def run2_match_def tagged_def

lemmas engine_defs = compare_def match_hits_def resolve_def open_buckets_def finish_def
  classify_old_hit_def oldOnly_append_def getitem_def set_status_def link_hit_def pop_def
  confirm_def lose_def tag_new_def
  date_oldsearch_def dict_values_def create_date_of_def classify_new_hit_def Let_def

lemma run1_compare: "compare run1_env run1 = Inr run1_result"
  by (simp add: run_defs engine_defs run1_result_def)

lemma run2_compare: "compare run2_env run2 = Inr run2_result"
  by (simp add: run_defs engine_defs run2_result_def)

lemma run1_matcher:
  "compare_blasts run1_env (heap run1) (input_new_hits run1) (input_old_hits run1) =
     (run1_heap(0 := tagged ''Q1'' [gi ''100''] ''a'' ''equal'',
                5 := tagged ''Q1'' [gi ''100''] ''a'' ''equal''),
      \<lparr>b_all = [5, 6, 7, 8, 9], b_unknown = [6, 7, 8, 9], b_same = [5], b_similar = []\<rparr>,
      \<lparr>b_all = [0, 1, 2, 3, 4], b_unknown = [1, 2, 3, 4], b_same = [0], b_similar = []\<rparr>)"
  by (simp add: run_defs)

lemma run2_matcher:
  "compare_blasts run2_env (heap run2) (input_new_hits run2) (input_old_hits run2) =
     (run2_heap,
      \<lparr>b_all = [2], b_unknown = [2], b_same = [], b_similar = []\<rparr>,
      \<lparr>b_all = [0, 1], b_unknown = [0, 1], b_same = [], b_similar = []\<rparr>)"
  by (simp add: run_defs)

subsection \<open>The buckets after a run\<close>

lemma open_buckets_simps [simp]:
  "heap (open_buckets s oo) = heap s"
  "oldGeneIDs (open_buckets s oo) = oldGeneIDs s"
  "newGeneIDs (open_buckets s oo) = newGeneIDs s"
  "calls (open_buckets s oo) = calls s"
  "writes (open_buckets s oo) = writes s"
  "email (open_buckets s oo) = email s"
  "new_hits (open_buckets s oo) = (new_hits s)\<lparr>new_replacement := []\<rparr>"
  "old_hits (open_buckets s oo) =
     (old_hits s)\<lparr>old_lost := live oo, old_suppressed := suppressed oo, old_replacement := []\<rparr>"
  by (simp_all add: open_buckets_def)

lemma compare_old_side:
  assumes c: "compare env s0 = Inr s'"
    and m: "compare_blasts env (heap s0) (input_new_hits s0) (input_old_hits s0) = (hp, pn, po)"
  shows "old_all (old_hits s') = b_all po \<and> old_unknown (old_hits s') = b_unknown po \<and>
         old_same (old_hits s') = b_same po \<and> old_similar (old_hits s') = b_similar po \<and>
         mset (old_lost (old_hits s')) + mset (old_replacement (old_hits s')) +
           mset (old_suppressed (old_hits s')) =
           mset (filter (\<lambda>h. has_gi (hp h)) (b_unknown po)) \<and>
         (\<forall>x. ids (heap s' x) = ids (hp x))"
proof -
  from c m obtain g s3 oo s4 n4 where
    p1: "classify_old (b_unknown po)
       ((match_hits env s0)\<lparr>calls := calls s0 @ [b_all po], oldGeneIDs := g\<rparr>,
        \<lparr>live = [], replaced = [], suppressed = []\<rparr>) = Inr (s3, oo)" and
    p2: "link_replaced env (replaced oo) (open_buckets s3 oo, None) = Inr (s4, n4)" and
    p3: "finish env s4 = Inr s'"
    by (rule compare_Inr)
  note mh = match_hits_simps [OF m]
  from classify_old_frame [OF p1] have
    f1: "old_hits s3 = old_hits (match_hits env s0)" "\<forall>x. ids (heap s3 x) = ids (hp x)"
    by (simp_all add: mh)
  from classify_old_count [OF p1] have
    c1: "mset (live oo) + mset (replaced oo) + mset (suppressed oo) =
           mset (filter (\<lambda>h. has_gi (hp h)) (b_unknown po))"
    by (simp add: mh)
  from link_replaced_frame [OF p2] have
    f2: "old_all (old_hits s4) = b_all po" "old_unknown (old_hits s4) = b_unknown po"
        "old_same (old_hits s4) = b_same po" "old_similar (old_hits s4) = b_similar po"
        "old_suppressed (old_hits s4) = suppressed oo" "\<forall>x. ids (heap s4 x) = ids (hp x)"
    by (simp_all add: f1 mh)
  from link_replaced_count [OF p2] have
    c2: "mset (old_lost (old_hits s4)) + mset (old_replacement (old_hits s4)) =
           mset (live oo) + mset (replaced oo)"
    by simp
  from p3 obtain g2 base where
    p4: "classify_new env base (new_unknown (new_hits s4))
       (s4\<lparr>calls := calls s4 @ [new_unknown (new_hits s4)], newGeneIDs := g2,
          new_hits := (new_hits s4)\<lparr>new_new := [], new_old := []\<rparr>\<rparr>) = Inr s'"
    by (rule finish_Inr)
  from classify_new_frame [OF p4] have
    f3: "old_hits s' = old_hits s4" "\<forall>x. ids (heap s' x) = ids (heap s4 x)" by simp_all
  from c1 c2 have "mset (old_lost (old_hits s4)) + mset (old_replacement (old_hits s4)) +
           mset (suppressed oo) = mset (filter (\<lambda>h. has_gi (hp h)) (b_unknown po))"
    by (simp add: ac_simps)
  with f2 f3 show ?thesis by simp
qed

lemma finish_frame:
  assumes "finish env s = Inr s'"
  shows "old_hits s' = old_hits s \<and> oldGeneIDs s' = oldGeneIDs s \<and> email s' = email s \<and>
         (\<forall>x. ids (heap s' x) = ids (heap s x)) \<and>
         new_unknown (new_hits s') = new_unknown (new_hits s) \<and>
         new_replacement (new_hits s') = new_replacement (new_hits s) \<and>
         new_all (new_hits s') = new_all (new_hits s) \<and>
         new_same (new_hits s') = new_same (new_hits s) \<and>
         new_similar (new_hits s') = new_similar (new_hits s) \<and>
         calls s' = calls s @ [new_unknown (new_hits s)] \<and>
         get_idlist env (map (heap s) (new_unknown (new_hits s))) (email s) = Inr (newGeneIDs s')"
proof -
  from assms obtain g base where
    g: "get_idlist env (map (heap s) (new_unknown (new_hits s))) (email s) = Inr g" and
    p: "classify_new env base (new_unknown (new_hits s))
       (s\<lparr>calls := calls s @ [new_unknown (new_hits s)], newGeneIDs := g,
          new_hits := (new_hits s)\<lparr>new_new := [], new_old := []\<rparr>\<rparr>) = Inr s'"
    by (rule finish_Inr)
  from classify_new_frame [OF p] g show ?thesis by simp
qed

lemma finish_result:
  assumes "finish env s = Inr s'"
  shows "\<exists>base. date_oldsearch env (oldGeneIDs s') = Inr base \<and>
            new_new (new_hits s') =
              filter (\<lambda>h. \<not> older env (newGeneIDs s') base (heap s' h)) (new_unknown (new_hits s')) \<and>
            new_old (new_hits s') =
              filter (\<lambda>h. older env (newGeneIDs s') base (heap s' h)) (new_unknown (new_hits s')) \<and>
            (\<forall>h \<in> set (new_unknown (new_hits s')).
               (\<exists>d. create_date_of env (newGeneIDs s') (heap s' h) = Inr d) \<and>
               status (heap s' h) =
                 Some (if older env (newGeneIDs s') base (heap s' h) then ''strange'' else ''new''))"
proof -
  from assms obtain g base where
    b: "date_oldsearch env (oldGeneIDs s) = Inr base" and
    p: "classify_new env base (new_unknown (new_hits s))
       (s\<lparr>calls := calls s @ [new_unknown (new_hits s)], newGeneIDs := g,
          new_hits := (new_hits s)\<lparr>new_new := [], new_old := []\<rparr>\<rparr>) = Inr s'"
    by (rule finish_Inr)
  let ?U = "new_unknown (new_hits s)"
  from classify_new_frame [OF p] have
    f: "new_unknown (new_hits s') = ?U" "oldGeneIDs s' = oldGeneIDs s" "newGeneIDs s' = g"
    and i: "\<And>x. ids (heap s' x) = ids (heap s x)"
    by simp_all
  have o: "\<And>x. older env g base (heap s' x) = older env g base (heap s x)"
    by (rule older_ids) (rule i)
  have d: "\<And>x. create_date_of env g (heap s' x) = create_date_of env g (heap s x)"
    by (rule create_date_of_ids) (rule i)
  from classify_new_result [OF p] have
    r1: "new_new (new_hits s') = filter (\<lambda>h. \<not> older env g base (heap s h)) ?U" and
    r2: "new_old (new_hits s') = filter (\<lambda>h. older env g base (heap s h)) ?U" and
    r3: "\<forall>h \<in> set ?U. \<exists>d. create_date_of env g (heap s h) = Inr d" and
    r4: "\<forall>x. status (heap s' x) =
          (if x \<in> set ?U then Some (if older env g base (heap s x) then ''strange'' else ''new'')
           else status (heap s x))"
    by simp_all
  have "date_oldsearch env (oldGeneIDs s') = Inr base" using b f(2) by simp
  moreover have "new_new (new_hits s') =
      filter (\<lambda>h. \<not> older env (newGeneIDs s') base (heap s' h)) (new_unknown (new_hits s'))"
    unfolding f o by (rule r1)
  moreover have "new_old (new_hits s') =
      filter (\<lambda>h. older env (newGeneIDs s') base (heap s' h)) (new_unknown (new_hits s'))"
    unfolding f o by (rule r2)
  moreover have "\<forall>h \<in> set (new_unknown (new_hits s')).
               (\<exists>d. create_date_of env (newGeneIDs s') (heap s' h) = Inr d) \<and>
               status (heap s' h) =
                 Some (if older env (newGeneIDs s') base (heap s' h) then ''strange'' else ''new'')"
    unfolding f o d using r3 r4 by simp
  ultimately show ?thesis by blast
qed

lemma compare_new_side:
  assumes c: "compare env s0 = Inr s'"
    and m: "compare_blasts env (heap s0) (input_new_hits s0) (input_old_hits s0) = (hp, pn, po)"
  shows "new_all (new_hits s') = b_all pn \<and> new_same (new_hits s') = b_same pn \<and>
         new_similar (new_hits s') = b_similar pn \<and>
         mset (new_unknown (new_hits s')) + mset (new_replacement (new_hits s')) =
           mset (b_unknown pn) \<and>
         set (new_unknown (new_hits s')) \<subseteq> set (b_unknown pn) \<and>
         (distinct (b_unknown pn) \<longrightarrow> distinct (new_unknown (new_hits s')))"
proof -
  from c m obtain g s3 oo s4 n4 where
    p1: "classify_old (b_unknown po)
       ((match_hits env s0)\<lparr>calls := calls s0 @ [b_all po], oldGeneIDs := g\<rparr>,
        \<lparr>live = [], replaced = [], suppressed = []\<rparr>) = Inr (s3, oo)" and
    p2: "link_replaced env (replaced oo) (open_buckets s3 oo, None) = Inr (s4, n4)" and
    p3: "finish env s4 = Inr s'"
    by (rule compare_Inr)
  note mh = match_hits_simps [OF m]
  from classify_old_frame [OF p1] have
    f1: "new_hits s3 = new_hits (match_hits env s0)" by simp
  from link_replaced_frame [OF p2] have
    f2: "new_all (new_hits s4) = b_all pn" "new_same (new_hits s4) = b_same pn"
        "new_similar (new_hits s4) = b_similar pn"
    by (simp_all add: f1 mh)
  from link_replaced_count [OF p2] have
    c2: "mset (new_unknown (new_hits s4)) + mset (new_replacement (new_hits s4)) =
           mset (b_unknown pn)"
    by (simp add: f1 mh)
  from link_replaced_grow [OF p2] have
    g2: "set (new_unknown (new_hits s4)) \<subseteq> set (b_unknown pn)"
        "distinct (b_unknown pn) \<longrightarrow> distinct (new_unknown (new_hits s4))"
    by (simp_all add: f1 mh)
  from finish_frame [OF p3] f2 c2 g2 show ?thesis by simp
qed

lemma compare_finish:
  assumes c: "compare env s0 = Inr s'"
  obtains s4 where "finish env s4 = Inr s'"
proof -
  obtain hp pn po where
    m: "compare_blasts env (heap s0) (input_new_hits s0) (input_old_hits s0) = (hp, pn, po)"
    by (cases "compare_blasts env (heap s0) (input_new_hits s0) (input_old_hits s0)")
  from c m obtain g s3 oo s4 n4 where "finish env s4 = Inr s'"
    by (rule compare_Inr)
  with that show ?thesis by blast
qed

lemma filter_split: "mset (filter (\<lambda>x. \<not> P x) xs) + mset (filter P xs) = mset xs"
  by (induction xs) simp_all

text \<open>
  C1, as the code has it. When the matcher hands over a partition of each side into
  \<^verbatim>\<open>same\<close>, \<^verbatim>\<open>similar\<close> and \<^verbatim>\<open>unknown\<close>, and every old hit without a copy has an
  identifier under \<^verbatim>\<open>'gi'\<close>, a run that completes leaves every hit of \<^verbatim>\<open>all\<close> in exactly
  one of the five final buckets of its side: the buckets together hold the hits of
  \<^verbatim>\<open>all\<close> with their multiplicities, so the sizes add up, and no hit is in two buckets
  when \<^verbatim>\<open>all\<close> has none twice.
\<close>

theorem partition_complete:
  assumes "compare env s0 = Inr s'"
    and "compare_blasts env (heap s0) (input_new_hits s0) (input_old_hits s0) = (hp, pn, po)"
    and "mset (b_all pn) = mset (b_same pn) + mset (b_similar pn) + mset (b_unknown pn)"
    and "mset (b_all po) = mset (b_same po) + mset (b_similar po) + mset (b_unknown po)"
    and "\<forall>h \<in> set (b_unknown po). has_gi (hp h)"
  shows "mset (old_all (old_hits s')) =
           mset (old_same (old_hits s') @ old_similar (old_hits s') @ old_lost (old_hits s') @
                 old_replacement (old_hits s') @ old_suppressed (old_hits s')) \<and>
         mset (new_all (new_hits s')) =
           mset (new_same (new_hits s') @ new_similar (new_hits s') @
                 new_replacement (new_hits s') @ new_new (new_hits s') @ new_old (new_hits s')) \<and>
         length (old_all (old_hits s')) =
           length (old_same (old_hits s')) + length (old_similar (old_hits s')) +
           length (old_lost (old_hits s')) + length (old_replacement (old_hits s')) +
           length (old_suppressed (old_hits s')) \<and>
         length (new_all (new_hits s')) =
           length (new_same (new_hits s')) + length (new_similar (new_hits s')) +
           length (new_replacement (new_hits s')) + length (new_new (new_hits s')) +
           length (new_old (new_hits s')) \<and>
         (distinct (old_all (old_hits s')) \<longrightarrow>
            distinct (old_same (old_hits s') @ old_similar (old_hits s') @ old_lost (old_hits s') @
                 old_replacement (old_hits s') @ old_suppressed (old_hits s'))) \<and>
         (distinct (new_all (new_hits s')) \<longrightarrow>
            distinct (new_same (new_hits s') @ new_similar (new_hits s') @
                 new_replacement (new_hits s') @ new_new (new_hits s') @ new_old (new_hits s')))"
proof -
  let ?O = "old_same (old_hits s') @ old_similar (old_hits s') @ old_lost (old_hits s') @
                 old_replacement (old_hits s') @ old_suppressed (old_hits s')"
  let ?N = "new_same (new_hits s') @ new_similar (new_hits s') @
                 new_replacement (new_hits s') @ new_new (new_hits s') @ new_old (new_hits s')"
  have all_gi: "filter (\<lambda>h. has_gi (hp h)) (b_unknown po) = b_unknown po"
    using assms(5) by (simp add: filter_id_conv)
  from compare_old_side [OF assms(1,2)] have
    o: "old_all (old_hits s') = b_all po" "old_same (old_hits s') = b_same po"
       "old_similar (old_hits s') = b_similar po"
       "mset (old_lost (old_hits s')) + mset (old_replacement (old_hits s')) +
           mset (old_suppressed (old_hits s')) = mset (b_unknown po)"
    by (simp_all add: all_gi)
  have O: "mset (old_all (old_hits s')) = mset ?O"
    using o(4) by (simp add: o(1,2,3) assms(4) ac_simps)
  from compare_new_side [OF assms(1,2)] have
    n: "new_all (new_hits s') = b_all pn" "new_same (new_hits s') = b_same pn"
       "new_similar (new_hits s') = b_similar pn"
       "mset (new_unknown (new_hits s')) + mset (new_replacement (new_hits s')) = mset (b_unknown pn)"
    by simp_all
  from assms(1) obtain s4 where "finish env s4 = Inr s'" by (rule compare_finish)
  from finish_result [OF this] obtain base where
    r: "new_new (new_hits s') =
              filter (\<lambda>h. \<not> older env (newGeneIDs s') base (heap s' h)) (new_unknown (new_hits s'))"
       "new_old (new_hits s') =
              filter (\<lambda>h. older env (newGeneIDs s') base (heap s' h)) (new_unknown (new_hits s'))"
    by blast
  have u: "mset (new_unknown (new_hits s')) =
      mset (new_new (new_hits s')) + mset (new_old (new_hits s'))"
    unfolding r by (rule filter_split [symmetric])
  have "mset (new_replacement (new_hits s')) + mset (new_new (new_hits s')) +
      mset (new_old (new_hits s')) = mset (b_unknown pn)"
    unfolding n(4) [symmetric] u by (simp add: ac_simps)
  then have N: "mset (new_all (new_hits s')) = mset ?N"
    by (simp add: n(1,2,3) assms(3) ac_simps)
  from O have lO: "length (old_all (old_hits s')) = length ?O" by (rule mset_eq_length)
  from N have lN: "length (new_all (new_hits s')) = length ?N" by (rule mset_eq_length)
  from O have dO: "distinct (old_all (old_hits s')) = distinct ?O" by (rule mset_eq_imp_distinct_iff)
  from N have dN: "distinct (new_all (new_hits s')) = distinct ?N" by (rule mset_eq_imp_distinct_iff)
  from O N lO lN dO dN show ?thesis by simp
qed

theorem partition_complete_witness:
  "compare run1_env run1 = Inr run1_result \<and>
   mset (old_all (old_hits run1_result)) = mset [0, 4, 3, 1, 2] \<and>
   mset (new_all (new_hits run1_result)) = mset [5, 6, 7, 9, 8] \<and>
   length (old_all (old_hits run1_result)) = 1 + 0 + 2 + 1 + 1 \<and>
   length (new_all (new_hits run1_result)) = 1 + 0 + 1 + 2 + 1"
proof -
  have p: "mset [5, 6, 7, 8, 9 :: nat] = mset [5] + mset [] + mset [6, 7, 8, 9]"
    "mset [0, 1, 2, 3, 4 :: nat] = mset [0] + mset [] + mset [1, 2, 3, 4]"
    by simp_all
  have g: "\<forall>h \<in> set [1, 2, 3, 4].
      has_gi ((run1_heap(0 := tagged ''Q1'' [gi ''100''] ''a'' ''equal'',
                         5 := tagged ''Q1'' [gi ''100''] ''a'' ''equal'')) h)"
    by (simp add: has_gi_def run1_heap_def hit_def gi_def)
  from partition_complete [OF run1_compare run1_matcher] p g
  show ?thesis by (simp add: run1_compare run1_result_def)
qed

text \<open>
  C1 as stated fails on the second run, which completes: hit 1 of the old search has no
  identifier under \<^verbatim>\<open>'gi'\<close>, so it is in \<^verbatim>\<open>all\<close> and in none of the five buckets.
\<close>

theorem partition_complete_counterexample:
  "compare run2_env run2 = Inr run2_result \<and>
   length (old_all (old_hits run2_result)) \<noteq>
     length (old_same (old_hits run2_result)) + length (old_similar (old_hits run2_result)) +
     length (old_lost (old_hits run2_result)) + length (old_replacement (old_hits run2_result)) +
     length (old_suppressed (old_hits run2_result)) \<and>
   1 \<in> set (old_all (old_hits run2_result)) \<and>
   1 \<notin> set (old_same (old_hits run2_result) @ old_similar (old_hits run2_result) @
             old_lost (old_hits run2_result) @ old_replacement (old_hits run2_result) @
             old_suppressed (old_hits run2_result))"
  by (simp add: run2_compare) (simp add: run2_result_def)

subsection \<open>The date of the old search and the two look-ups\<close>

lemma date_oldsearch_max:
  assumes "date_oldsearch env g = Inr base"
  shows "\<exists>ds. create_dates env (dict_values g) = Inr ds \<and> base \<in> set ds \<and> (\<forall>d \<in> set ds. d \<le> base)"
proof -
  from date_oldsearch_Inr [OF assms] obtain ds where
    ds: "create_dates env (dict_values g) = Inr ds" "ds \<noteq> []" "base = Max (set ds)" by blast
  from ds(2,3) have "base \<in> set ds" by (simp add: Max_in)
  moreover from ds(3) have "\<forall>d \<in> set ds. d \<le> base" by simp
  ultimately show ?thesis using ds(1) by blast
qed

text \<open>
  C4. After a run that completes, the date of the old search is the latest creation date
  among the entries of \<^verbatim>\<open>self.oldGeneIDs\<close>, and every hit left in
  \<^verbatim>\<open>self.new_hits['unknown']\<close> has a creation date \<open>d\<close>: if \<open>d\<close> is strictly earlier than the
  date of the old search the hit is in \<^verbatim>\<open>self.new_hits['old']\<close> with status
  \<^verbatim>\<open>'strange'\<close>, and if \<open>d\<close> is that date or a later one the hit is in
  \<^verbatim>\<open>self.new_hits['new']\<close> with status \<^verbatim>\<open>'new'\<close>.
\<close>

theorem recency_boundary:
  assumes "compare env s0 = Inr s'"
  shows "\<exists>base ds.
           date_oldsearch env (oldGeneIDs s') = Inr base \<and>
           create_dates env (dict_values (oldGeneIDs s')) = Inr ds \<and>
           base \<in> set ds \<and> (\<forall>d \<in> set ds. d \<le> base) \<and>
           (\<forall>h \<in> set (new_unknown (new_hits s')).
              \<exists>d. create_date_of env (newGeneIDs s') (heap s' h) = Inr d \<and>
                  (d < base \<longrightarrow> h \<in> set (new_old (new_hits s')) \<and>
                     h \<notin> set (new_new (new_hits s')) \<and> status (heap s' h) = Some ''strange'') \<and>
                  (base \<le> d \<longrightarrow> h \<in> set (new_new (new_hits s')) \<and>
                     h \<notin> set (new_old (new_hits s')) \<and> status (heap s' h) = Some ''new''))"
proof -
  from assms obtain s4 where "finish env s4 = Inr s'" by (rule compare_finish)
  from finish_result [OF this] obtain base where
    b: "date_oldsearch env (oldGeneIDs s') = Inr base" and
    nn: "new_new (new_hits s') =
           filter (\<lambda>h. \<not> older env (newGeneIDs s') base (heap s' h)) (new_unknown (new_hits s'))" and
    no: "new_old (new_hits s') =
           filter (\<lambda>h. older env (newGeneIDs s') base (heap s' h)) (new_unknown (new_hits s'))" and
    st: "\<forall>h \<in> set (new_unknown (new_hits s')).
           (\<exists>d. create_date_of env (newGeneIDs s') (heap s' h) = Inr d) \<and>
           status (heap s' h) =
             Some (if older env (newGeneIDs s') base (heap s' h) then ''strange'' else ''new'')"
    by blast
  from date_oldsearch_max [OF b] obtain ds where
    ds: "create_dates env (dict_values (oldGeneIDs s')) = Inr ds" "base \<in> set ds"
        "\<forall>d \<in> set ds. d \<le> base" by blast
  have "\<forall>h \<in> set (new_unknown (new_hits s')).
      \<exists>d. create_date_of env (newGeneIDs s') (heap s' h) = Inr d \<and>
          (d < base \<longrightarrow> h \<in> set (new_old (new_hits s')) \<and>
             h \<notin> set (new_new (new_hits s')) \<and> status (heap s' h) = Some ''strange'') \<and>
          (base \<le> d \<longrightarrow> h \<in> set (new_new (new_hits s')) \<and>
             h \<notin> set (new_old (new_hits s')) \<and> status (heap s' h) = Some ''new'')"
  proof
    fix h assume h: "h \<in> set (new_unknown (new_hits s'))"
    with st obtain d where
      d: "create_date_of env (newGeneIDs s') (heap s' h) = Inr d" and
      s: "status (heap s' h) =
            Some (if older env (newGeneIDs s') base (heap s' h) then ''strange'' else ''new'')"
      by blast
    from d have o: "older env (newGeneIDs s') base (heap s' h) = (d < base)"
      by (simp add: older_def)
    have "(d < base \<longrightarrow> h \<in> set (new_old (new_hits s')) \<and>
             h \<notin> set (new_new (new_hits s')) \<and> status (heap s' h) = Some ''strange'') \<and>
          (base \<le> d \<longrightarrow> h \<in> set (new_new (new_hits s')) \<and>
             h \<notin> set (new_old (new_hits s')) \<and> status (heap s' h) = Some ''new'')"
      unfolding nn no using h s o by (auto simp: not_less)
    with d show "\<exists>d. create_date_of env (newGeneIDs s') (heap s' h) = Inr d \<and>
          (d < base \<longrightarrow> h \<in> set (new_old (new_hits s')) \<and>
             h \<notin> set (new_new (new_hits s')) \<and> status (heap s' h) = Some ''strange'') \<and>
          (base \<le> d \<longrightarrow> h \<in> set (new_new (new_hits s')) \<and>
             h \<notin> set (new_old (new_hits s')) \<and> status (heap s' h) = Some ''new'')"
      by blast
  qed
  with b ds show ?thesis by blast
qed

theorem recency_boundary_witness:
  "compare run1_env run1 = Inr run1_result \<and>
   date_oldsearch run1_env (oldGeneIDs run1_result) = Inr (2014, 6, 15) \<and>
   create_date_of run1_env (newGeneIDs run1_result) (heap run1_result 9) = Inr (2014, 6, 15) \<and>
   9 \<in> set (new_new (new_hits run1_result)) \<and> status (heap run1_result 9) = Some ''new'' \<and>
   create_date_of run1_env (newGeneIDs run1_result) (heap run1_result 8) = Inr (2014, 6, 14) \<and>
   8 \<in> set (new_old (new_hits run1_result)) \<and> status (heap run1_result 8) = Some ''strange''"
  using recency_boundary [OF run1_compare]
  by (simp add: run1_compare)
     (simp add: run1_result_def run_defs date_oldsearch_def dict_values_def create_date_of_def
        getitem_def)

lemma compare_calls:
  assumes c: "compare env s0 = Inr s'"
    and m: "compare_blasts env (heap s0) (input_new_hits s0) (input_old_hits s0) = (hp, pn, po)"
  shows "calls s' = calls s0 @ [b_all po, new_unknown (new_hits s')] \<and>
         get_idlist env (map hp (b_all po)) (email s0) = Inr (oldGeneIDs s')"
proof -
  from c m obtain g s3 oo s4 n4 where
    g: "get_idlist env (map hp (b_all po)) (email s0) = Inr g" and
    p1: "classify_old (b_unknown po)
       ((match_hits env s0)\<lparr>calls := calls s0 @ [b_all po], oldGeneIDs := g\<rparr>,
        \<lparr>live = [], replaced = [], suppressed = []\<rparr>) = Inr (s3, oo)" and
    p2: "link_replaced env (replaced oo) (open_buckets s3 oo, None) = Inr (s4, n4)" and
    p3: "finish env s4 = Inr s'"
    by (rule compare_Inr)
  from classify_old_frame [OF p1] have
    f1: "calls s3 = calls s0 @ [b_all po]" "oldGeneIDs s3 = g" by simp_all
  from link_replaced_frame [OF p2] have
    f2: "calls s4 = calls s3" "oldGeneIDs s4 = oldGeneIDs s3" by simp_all
  from finish_frame [OF p3] have
    f3: "calls s' = calls s4 @ [new_unknown (new_hits s')]" "oldGeneIDs s' = oldGeneIDs s4"
    by simp_all
  from g f1 f2 f3 show ?thesis by simp
qed

text \<open>
  C5, as the code has it. A run that completes calls \<^verbatim>\<open>get_idlist\<close> exactly twice: first
  with all the hits of the old side (\<^verbatim>\<open>self.old_hits['all']\<close>, the hits with a copy
  included), and the date of the old search is the latest creation date among the entries
  this call returned; then with the hits left in \<^verbatim>\<open>self.new_hits['unknown']\<close>.
\<close>

theorem resolver_called_twice:
  assumes "compare env s0 = Inr s'"
    and "compare_blasts env (heap s0) (input_new_hits s0) (input_old_hits s0) = (hp, pn, po)"
  shows "calls s' = calls s0 @ [old_all (old_hits s'), new_unknown (new_hits s')] \<and>
         old_all (old_hits s') = b_all po \<and>
         get_idlist env (map hp (old_all (old_hits s'))) (email s0) = Inr (oldGeneIDs s') \<and>
         (\<exists>base ds. date_oldsearch env (oldGeneIDs s') = Inr base \<and>
            create_dates env (dict_values (oldGeneIDs s')) = Inr ds \<and>
            base \<in> set ds \<and> (\<forall>d \<in> set ds. d \<le> base))"
proof -
  from compare_old_side [OF assms] have a: "old_all (old_hits s') = b_all po" by simp
  from assms(1) obtain s4 where "finish env s4 = Inr s'" by (rule compare_finish)
  from finish_result [OF this] obtain base where
    b: "date_oldsearch env (oldGeneIDs s') = Inr base" by blast
  from date_oldsearch_max [OF b] b have
    "\<exists>base ds. date_oldsearch env (oldGeneIDs s') = Inr base \<and>
            create_dates env (dict_values (oldGeneIDs s')) = Inr ds \<and>
            base \<in> set ds \<and> (\<forall>d \<in> set ds. d \<le> base)" by blast
  with compare_calls [OF assms] a show ?thesis by simp
qed

theorem resolver_called_twice_witness:
  "compare run1_env run1 = Inr run1_result \<and>
   calls run1_result = [[0, 1, 2, 3, 4], [7, 8, 9]] \<and>
   old_all (old_hits run1_result) = [0, 1, 2, 3, 4] \<and>
   new_unknown (new_hits run1_result) = [7, 8, 9]"
  using resolver_called_twice [OF run1_compare run1_matcher]
  by (simp add: run1_compare) (simp add: run1_result_def run1_def init_def)

text \<open>
  C5 as stated fails on the first run: the first call is made with hit 0, which has a copy
  in the new search and is not among the unmatched old hits.
\<close>

theorem resolver_called_twice_counterexample:
  "compare run1_env run1 = Inr run1_result \<and>
   calls run1_result ! 0 = [0, 1, 2, 3, 4] \<and>
   old_unknown (old_hits run1_result) = [1, 2, 3, 4] \<and>
   calls run1_result ! 0 \<noteq> old_unknown (old_hits run1_result)"
  by (simp add: run1_compare) (simp add: run1_result_def)

subsection \<open>An empty directory for the old side\<close>

lemma classify_old_no_gi:
  "\<forall>h \<in> set hs. \<not> has_gi (heap s h) \<Longrightarrow> classify_old hs (s, oo) = Inr (s, oo)"
  by (induction hs) (simp_all add: classify_old_hit_no_gi)

text \<open>
  C10. When \<^verbatim>\<open>get_idlist\<close> returns an empty dictionary for the old side, \<^verbatim>\<open>compare\<close>
  does not complete: it ends in an exception. The maximum of line 130 over no dates is a
  \<^verbatim>\<open>ValueError\<close>, and this is the exception of the run when no unmatched old hit has an
  identifier under \<^verbatim>\<open>'gi'\<close> (an unmatched old hit with one raises the \<^verbatim>\<open>KeyError\<close> of
  line 90 before) and the second call of \<^verbatim>\<open>get_idlist\<close> returns.
\<close>

theorem empty_old_directory_raises:
  assumes "compare_blasts env (heap s0) (input_new_hits s0) (input_old_hits s0) = (hp, pn, po)"
    and "get_idlist env (map hp (b_all po)) (email s0) = Inr []"
  shows "(\<exists>e. compare env s0 = Inl e) \<and>
         date_oldsearch env [] = Inl ValueError \<and>
         ((\<forall>h \<in> set (b_unknown po). \<not> has_gi (hp h)) \<and>
          (\<exists>g. get_idlist env (map hp (b_unknown pn)) (email s0) = Inr g) \<longrightarrow>
            compare env s0 = Inl ValueError)"
proof -
  have 1: "\<exists>e. compare env s0 = Inl e"
  proof (cases "compare env s0")
    case (Inl e)
    then show ?thesis by blast
  next
    case (Inr s')
    from Inr assms(1) obtain g s3 oo s4 n4 where
      g: "get_idlist env (map hp (b_all po)) (email s0) = Inr g" and
      p1: "classify_old (b_unknown po)
         ((match_hits env s0)\<lparr>calls := calls s0 @ [b_all po], oldGeneIDs := g\<rparr>,
          \<lparr>live = [], replaced = [], suppressed = []\<rparr>) = Inr (s3, oo)" and
      p2: "link_replaced env (replaced oo) (open_buckets s3 oo, None) = Inr (s4, n4)" and
      p3: "finish env s4 = Inr s'"
      by (rule compare_Inr)
    from g assms(2) have "g = []" by simp
    with classify_old_frame [OF p1] link_replaced_frame [OF p2]
    have "oldGeneIDs s4 = []" by simp
    moreover from p3 obtain g2 base where "date_oldsearch env (oldGeneIDs s4) = Inr base"
      by (rule finish_Inr)
    ultimately show ?thesis by (simp add: date_oldsearch_empty)
  qed
  have 3: "compare env s0 = Inl ValueError"
    if n: "\<forall>h \<in> set (b_unknown po). \<not> has_gi (hp h)"
      and g: "get_idlist env (map hp (b_unknown pn)) (email s0) = Inr g" for g
  proof -
    note mh = match_hits_simps [OF assms(1)]
    let ?s2 = "(match_hits env s0)\<lparr>calls := calls s0 @ [b_all po], oldGeneIDs := []\<rparr>"
    have "classify_old (b_unknown po) (?s2, \<lparr>live = [], replaced = [], suppressed = []\<rparr>) =
        Inr (?s2, \<lparr>live = [], replaced = [], suppressed = []\<rparr>)"
      by (rule classify_old_no_gi) (simp add: mh n)
    then show ?thesis
      using assms(2) g
      by (simp add: compare_def Let_def resolve_def mh finish_def date_oldsearch_empty)
  qed
  from 1 3 show ?thesis by (auto simp: date_oldsearch_empty)
qed

theorem empty_old_directory_raises_witness:
  "get_idlist (run2_env\<lparr>get_idlist := lookup_in []\<rparr>) (map run2_heap [1]) ''test@test.com'' = Inr [] \<and>
   compare (run2_env\<lparr>get_idlist := lookup_in []\<rparr>)
     (init run2_heap [1] [2] ''test@test.com'' ''Q1'') = Inl ValueError"
proof -
  let ?env = "run2_env\<lparr>get_idlist := lookup_in []\<rparr>"
  let ?s0 = "init run2_heap [1] [2] ''test@test.com'' ''Q1''"
  have m: "compare_blasts ?env (heap ?s0) (input_new_hits ?s0) (input_old_hits ?s0) =
     (run2_heap,
      \<lparr>b_all = [2], b_unknown = [2], b_same = [], b_similar = []\<rparr>,
      \<lparr>b_all = [1], b_unknown = [1], b_same = [], b_similar = []\<rparr>)"
    by (simp add: run2_env_def run2_match_def init_def)
  have g: "get_idlist ?env
      (map run2_heap (b_all \<lparr>b_all = [1], b_unknown = [1], b_same = [], b_similar = []\<rparr>))
      (email ?s0) = Inr []"
    by (simp add: run2_env_def lookup_in_def)
  have n: "\<forall>h \<in> set (b_unknown \<lparr>b_all = [1], b_unknown = [1], b_same = [], b_similar = []\<rparr>).
      \<not> has_gi (run2_heap h)"
    by (simp add: has_gi_def run2_heap_def hit_def)
  have g2: "\<exists>g. get_idlist ?env
      (map run2_heap (b_unknown \<lparr>b_all = [2], b_unknown = [2], b_same = [], b_similar = []\<rparr>))
      (email ?s0) = Inr g"
    by (simp add: run2_env_def lookup_in_def)
  from empty_old_directory_raises [OF m g] n g2
  have "compare ?env ?s0 = Inl ValueError" by blast
  then show ?thesis by (simp add: run2_env_def lookup_in_def)
qed

subsection \<open>The counts of \<^verbatim>\<open>output_comparison\<close>\<close>

lemma increment_Inr:
  assumes "increment t st = Inr t'"
  obtains c n where "st = Some c" "t c = Some n" "t' = t(c \<mapsto> Suc n)"
  using assms by (auto simp: increment_def split: option.splits)

lemma increment_ok: "t c = Some n \<Longrightarrow> increment t (Some c) = Inr (t(c \<mapsto> Suc n))"
  by (simp add: increment_def)

lemma increment_Inl:
  "(\<exists>e. increment t st = Inl e) \<longleftrightarrow> \<not> (\<exists>c. st = Some c \<and> c \<in> dom t)"
  by (auto simp: increment_def split: option.splits)

lemma with_status_Cons:
  "with_status hp (h # hs) c = (if status (hp h) = Some c then 1 else 0) + with_status hp hs c"
  by (simp add: with_status_def)

lemma count_old_Inr:
  "count_old hp hs t = Inr t' \<Longrightarrow>
     (\<forall>c. t' c = map_option (\<lambda>n. n + with_status hp hs c) (t c))"
proof (induction hs arbitrary: t)
  case Nil
  then show ?case by (simp add: with_status_def option.map_ident)
next
  case (Cons h hs)
  from Cons.prems obtain t1 where
    i: "increment t (status (hp h)) = Inr t1" and r: "count_old hp hs t1 = Inr t'"
    by (cases "increment t (status (hp h))") simp_all
  from i obtain c0 n where c0: "status (hp h) = Some c0" "t c0 = Some n" "t1 = t(c0 \<mapsto> Suc n)"
    by (rule increment_Inr)
  from Cons.IH [OF r] have ih: "\<And>c. t' c = map_option (\<lambda>n. n + with_status hp hs c) (t1 c)"
    by simp
  show ?case
  proof
    fix c
    show "t' c = map_option (\<lambda>n. n + with_status hp (h # hs) c) (t c)"
      using ih [of c] c0 by (cases "c = c0") (simp_all add: with_status_Cons)
  qed
qed

lemma count_old_returns:
  "(\<exists>t'. count_old hp hs t = Inr t') \<longleftrightarrow>
     (\<forall>h \<in> set hs. \<exists>c. status (hp h) = Some c \<and> c \<in> dom t)"
proof (induction hs arbitrary: t)
  case Nil
  then show ?case by simp
next
  case (Cons h hs)
  show ?case
  proof (cases "increment t (status (hp h))")
    case (Inl e)
    then have "\<not> (\<exists>c. status (hp h) = Some c \<and> c \<in> dom t)"
      using increment_Inl [of t "status (hp h)"] by blast
    with Inl show ?thesis by simp
  next
    case (Inr t1)
    then obtain c0 n where c0: "status (hp h) = Some c0" "t c0 = Some n" "t1 = t(c0 \<mapsto> Suc n)"
      by (rule increment_Inr)
    from c0 have d: "dom t1 = dom t" by auto
    from Inr have "(\<exists>t'. count_old hp (h # hs) t = Inr t') \<longleftrightarrow> (\<exists>t'. count_old hp hs t1 = Inr t')"
      by simp
    also have "\<dots> \<longleftrightarrow> (\<forall>h \<in> set hs. \<exists>c. status (hp h) = Some c \<and> c \<in> dom t)"
      unfolding Cons.IH [of t1] d ..
    also have "\<dots> \<longleftrightarrow> (\<forall>h \<in> set (h # hs). \<exists>c. status (hp h) = Some c \<and> c \<in> dom t)"
      using c0(1,2) by auto
    finally show ?thesis .
  qed
qed

lemma count_new_Inr:
  "count_new hp hs t = Inr t' \<Longrightarrow>
     (\<forall>c. t' c = map_option (\<lambda>n. n + (if c = ''new'' \<or> c = ''strange''
                                         then with_status hp hs c else 0)) (t c))"
proof (induction hs arbitrary: t)
  case Nil
  then show ?case by (simp add: with_status_def option.map_ident)
next
  case (Cons h hs)
  show ?case
  proof (cases "status (hp h) = Some ''new'' \<or> status (hp h) = Some ''strange''")
    case False
    with Cons.prems have r: "count_new hp hs t = Inr t'" by simp
    from False have "\<And>c. c = ''new'' \<or> c = ''strange'' \<Longrightarrow> status (hp h) \<noteq> Some c" by auto
    with Cons.IH [OF r] show ?thesis by (simp add: with_status_Cons)
  next
    case True
    with Cons.prems obtain t1 where
      i: "increment t (status (hp h)) = Inr t1" and r: "count_new hp hs t1 = Inr t'"
      by (cases "increment t (status (hp h))") auto
    from i obtain c0 n where c0: "status (hp h) = Some c0" "t c0 = Some n" "t1 = t(c0 \<mapsto> Suc n)"
      by (rule increment_Inr)
    from True c0(1) have c0': "c0 = ''new'' \<or> c0 = ''strange''" by simp
    from Cons.IH [OF r] have ih: "\<And>c. t' c = map_option (\<lambda>n. n + (if c = ''new'' \<or> c = ''strange''
                                         then with_status hp hs c else 0)) (t1 c)"
      by simp
    show ?thesis
    proof
      fix c
      show "t' c = map_option (\<lambda>n. n + (if c = ''new'' \<or> c = ''strange''
                                         then with_status hp (h # hs) c else 0)) (t c)"
        using ih [of c] c0 c0' by (cases "c = c0") (auto simp: with_status_Cons)
    qed
  qed
qed

lemma count_new_returns:
  "''new'' \<in> dom t \<Longrightarrow> ''strange'' \<in> dom t \<Longrightarrow> \<exists>t'. count_new hp hs t = Inr t'"
proof (induction hs arbitrary: t)
  case Nil
  then show ?case by simp
next
  case (Cons h hs)
  show ?case
  proof (cases "status (hp h) = Some ''new'' \<or> status (hp h) = Some ''strange''")
    case False
    with Cons show ?thesis by simp
  next
    case True
    then obtain c0 where c0: "status (hp h) = Some c0" "c0 = ''new'' \<or> c0 = ''strange''" by auto
    with Cons.prems obtain n where n: "t c0 = Some n" by auto
    let ?t1 = "t(c0 \<mapsto> Suc n)"
    have "''new'' \<in> dom ?t1" "''strange'' \<in> dom ?t1" using Cons.prems by auto
    from Cons.IH [OF this] obtain t' where "count_new hp hs ?t1 = Inr t'" by blast
    with c0 n True show ?thesis by (auto simp: increment_ok)
  qed
qed

lemma slice_considered:
  "0 \<le> topN \<Longrightarrow> slice_to xs (top_of topN xs) = considered topN xs"
  by (auto simp: slice_to_def top_of_def considered_def min_def)

lemma no_hits_simps:
  "dom no_hits = set categories" "\<And>c. c \<in> set categories \<Longrightarrow> no_hits c = Some 0"
  by (auto simp: no_hits_def categories_def split: if_splits)

text \<open>
  C6. For \<open>topN \<ge> 0\<close> the counts look at the whole of each side's \<^verbatim>\<open>all\<close> when \<open>topN\<close>
  is 0 and at its first \<open>min topN |all|\<close> hits, in their order, otherwise. When the counts
  are returned, the count of a category is the number of old hits looked at with that
  status, plus, for \<^verbatim>\<open>'new'\<close> and \<^verbatim>\<open>'strange'\<close> only, the number of new hits looked at with
  that status. The counts are returned exactly when the status of every old hit looked
  at is one of the seven categories; otherwise line 176 raises.
\<close>

theorem tally_counts_prefix:
  assumes "0 \<le> topN"
  shows "((\<exists>t. hits_per_category s topN = Inr t) \<longleftrightarrow>
            (\<forall>h \<in> set (considered topN (old_all (old_hits s))).
               \<exists>c \<in> set categories. status (heap s h) = Some c)) \<and>
         (\<forall>t. hits_per_category s topN = Inr t \<longrightarrow>
            (\<forall>c \<in> set categories.
               t c = Some (with_status (heap s) (considered topN (old_all (old_hits s))) c +
                           (if c = ''new'' \<or> c = ''strange''
                            then with_status (heap s) (considered topN (new_all (new_hits s))) c
                            else 0)))) \<and>
         considered 0 (old_all (old_hits s)) = old_all (old_hits s) \<and>
         (0 < topN \<longrightarrow> considered topN (old_all (old_hits s)) =
            take (min (nat topN) (length (old_all (old_hits s)))) (old_all (old_hits s)))"
proof -
  let ?O = "considered topN (old_all (old_hits s))"
  let ?N = "considered topN (new_all (new_hits s))"
  have h: "hits_per_category s topN =
      (case count_old (heap s) ?O no_hits of Inl e \<Rightarrow> Inl e | Inr t \<Rightarrow> count_new (heap s) ?N t)"
    unfolding hits_per_category_def Let_def slice_considered [OF assms] ..
  have 1: "(\<exists>t. hits_per_category s topN = Inr t) \<longleftrightarrow>
      (\<forall>h \<in> set ?O. \<exists>c \<in> set categories. status (heap s h) = Some c)"
  proof
    assume "\<exists>t. hits_per_category s topN = Inr t"
    with h have "\<exists>t1. count_old (heap s) ?O no_hits = Inr t1"
      by (cases "count_old (heap s) ?O no_hits") auto
    then show "\<forall>h \<in> set ?O. \<exists>c \<in> set categories. status (heap s h) = Some c"
      unfolding count_old_returns no_hits_simps(1) by blast
  next
    assume "\<forall>h \<in> set ?O. \<exists>c \<in> set categories. status (heap s h) = Some c"
    then have "\<forall>h \<in> set ?O. \<exists>c. status (heap s h) = Some c \<and> c \<in> dom no_hits"
      unfolding no_hits_simps(1) by blast
    then obtain t1 where t1: "count_old (heap s) ?O no_hits = Inr t1"
      unfolding count_old_returns [symmetric] by blast
    from count_old_Inr [OF t1] have "dom t1 = dom no_hits" by (auto simp: dom_def)
    then have "''new'' \<in> dom t1" "''strange'' \<in> dom t1"
      by (simp_all add: no_hits_simps(1) categories_def)
    from count_new_returns [OF this] obtain t where "count_new (heap s) ?N t1 = Inr t" by blast
    with h t1 show "\<exists>t. hits_per_category s topN = Inr t" by simp
  qed
  have 2: "t c = Some (with_status (heap s) ?O c +
      (if c = ''new'' \<or> c = ''strange'' then with_status (heap s) ?N c else 0))"
    if t: "hits_per_category s topN = Inr t" and c: "c \<in> set categories" for t c
  proof -
    from t h obtain t1 where
      t1: "count_old (heap s) ?O no_hits = Inr t1" and t2: "count_new (heap s) ?N t1 = Inr t"
      by (cases "count_old (heap s) ?O no_hits") auto
    from count_old_Inr [OF t1] no_hits_simps(2) [OF c]
    have "t1 c = Some (with_status (heap s) ?O c)" by simp
    with count_new_Inr [OF t2] show ?thesis by simp
  qed
  have 3: "considered 0 (old_all (old_hits s)) = old_all (old_hits s)"
    "0 < topN \<longrightarrow> considered topN (old_all (old_hits s)) =
            take (min (nat topN) (length (old_all (old_hits s)))) (old_all (old_hits s))"
    by (simp_all add: considered_def)
  from 1 2 3 show ?thesis by blast
qed

lemma run1_tally:
  "map_sum id (\<lambda>t. map t categories) (hits_per_category run1_result 2) =
     Inr [Some 1, Some 0, Some 0, Some 1, Some 0, Some 0, Some 0]"
  "map_sum id (\<lambda>t. map t categories) (hits_per_category run1_result 0) =
     Inr [Some 1, Some 0, Some 2, Some 1, Some 1, Some 2, Some 1]"
  by (simp_all add: hits_per_category_def Let_def top_of_def slice_to_def run1_result_def
      tagged_def hit_def no_hits_def categories_def increment_def)

theorem tally_counts_prefix_witness:
  "(0 :: int) \<le> 2 \<and>
   map_sum id (\<lambda>t. map t categories) (hits_per_category run1_result 2) =
     Inr [Some 1, Some 0, Some 0, Some 1, Some 0, Some 0, Some 0] \<and>
   considered 2 (old_all (old_hits run1_result)) = [0, 1] \<and>
   considered 2 (new_all (new_hits run1_result)) = [5, 6] \<and>
   map (\<lambda>h. status (heap run1_result h)) [0, 1, 5, 6] =
     [Some ''equal'', Some ''replaced'', Some ''equal'', Some ''replacement'']"
proof -
  have z: "(0 :: int) \<le> 2" by simp
  from tally_counts_prefix [OF z, of run1_result] run1_tally(1) show ?thesis
    by (simp add: considered_def) (simp add: run1_result_def tagged_def)
qed

subsection \<open>Which hits are written to\<close>

lemma writes_to_append [simp]: "writes_to (a @ b) h = writes_to a h @ writes_to b h"
  by (simp add: writes_to_def)

lemma writes_to_Nil [simp]: "writes_to [] h = []"
  by (simp add: writes_to_def)

lemma writes_to_Cons:
  "writes_to (w # ws) h = (if fst w = h then snd w # writes_to ws h else writes_to ws h)"
  by (simp add: writes_to_def)

lemma writes_to_none: "h \<notin> fst ` set W \<Longrightarrow> writes_to W h = []"
  by (induction W) (auto simp: writes_to_Cons)

lemma writes_to_one: "distinct (map fst W) \<Longrightarrow> (h, v) \<in> set W \<Longrightarrow> writes_to W h = [v]"
proof (induction W)
  case Nil
  then show ?case by simp
next
  case (Cons w W)
  show ?case
  proof (cases "w = (h, v)")
    case True
    with Cons.prems(1) have "h \<notin> fst ` set W" by auto
    with True show ?thesis by (simp add: writes_to_Cons writes_to_none)
  next
    case False
    with Cons.prems have in_W: "(h, v) \<in> set W" by simp
    then have "h \<in> fst ` set W" by force
    with Cons.prems(1) have "fst w \<noteq> h" by auto
    with Cons.IH in_W Cons.prems(1) show ?thesis by (simp add: writes_to_Cons)
  qed
qed

lemma writes_to_cases:
  assumes "distinct (map fst W)"
  shows "writes_to W h = [] \<or> (\<exists>v. (h, v) \<in> set W \<and> writes_to W h = [v])"
proof (cases "h \<in> fst ` set W")
  case False
  then show ?thesis by (simp add: writes_to_none)
next
  case True
  then obtain v where "(h, v) \<in> set W" by auto
  with writes_to_one [OF assms this] show ?thesis by blast
qed

text \<open>Outside the hits written to, the store is as before.\<close>

lemma classify_old_hit_heap:
  assumes "classify_old_hit (s, oo) h = Inr (s1, oo1)" and "x \<noteq> h"
  shows "heap s1 x = heap s x"
proof (cases "has_gi (heap s h)")
  case True
  from classify_old_hit_gi [OF assms(1) True] assms(2) show ?thesis by auto
next
  case False
  with assms(1) show ?thesis by (simp add: classify_old_hit_no_gi)
qed

lemma classify_old_heap:
  "classify_old hs (s, oo) = Inr (s', oo') \<Longrightarrow> x \<notin> set hs \<or> \<not> has_gi (heap s x) \<Longrightarrow>
     heap s' x = heap s x"
proof (induction hs arbitrary: s oo)
  case Nil
  then show ?case by simp
next
  case (Cons h hs)
  from Cons.prems(1) obtain s1 oo1 where
    step: "classify_old_hit (s, oo) h = Inr (s1, oo1)" and
    rest: "classify_old hs (s1, oo1) = Inr (s', oo')"
    by (rule classify_old_Cons)
  have one: "heap s1 x = heap s x"
  proof (cases "x = h")
    case True
    with Cons.prems(2) have "\<not> has_gi (heap s h)" by simp
    with step show ?thesis by (simp add: classify_old_hit_no_gi)
  next
    case False
    then show ?thesis by (rule classify_old_hit_heap [OF step])
  qed
  from Cons.prems(2) one have "x \<notin> set hs \<or> \<not> has_gi (heap s1 x)" by auto
  from Cons.IH [OF rest this] one show ?case by simp
qed

lemma link_hit_written:
  assumes "link_hit env (s, n0) h = Inr (s', n')"
  shows "\<exists>w. writes s' = writes s @ [w] \<and> fst w \<in> set (new_unknown (new_hits s)) \<union> {h} \<and>
             (\<forall>x. x \<noteq> fst w \<longrightarrow> heap s' x = heap s x)"
  using assms
proof (rule link_hit_step)
  fix k assume "k < length (new_unknown (new_hits s))" "s' = confirm s h k"
  then show ?thesis by simp
next
  assume "s' = lose s h"
  then show ?thesis by simp
qed

lemma link_replaced_written:
  "link_replaced env hs (s, n0) = Inr (s', n') \<Longrightarrow>
     \<exists>W. writes s' = writes s @ W \<and> fst ` set W \<subseteq> set (new_unknown (new_hits s)) \<union> set hs \<and>
         (\<forall>x. x \<notin> fst ` set W \<longrightarrow> heap s' x = heap s x)"
proof (induction hs arbitrary: s n0)
  case Nil
  then show ?case by simp
next
  case (Cons h hs)
  from Cons.prems obtain s1 n1 where
    step: "link_hit env (s, n0) h = Inr (s1, n1)" and
    rest: "link_replaced env hs (s1, n1) = Inr (s', n')"
    by (rule link_replaced_Cons)
  from link_hit_written [OF step] obtain w where
    w: "writes s1 = writes s @ [w]" "fst w \<in> set (new_unknown (new_hits s)) \<union> {h}"
       "\<forall>x. x \<noteq> fst w \<longrightarrow> heap s1 x = heap s x" by blast
  from Cons.IH [OF rest] obtain W where
    W: "writes s' = writes s1 @ W" "fst ` set W \<subseteq> set (new_unknown (new_hits s1)) \<union> set hs"
       "\<forall>x. x \<notin> fst ` set W \<longrightarrow> heap s' x = heap s1 x" by blast
  from link_hit_grow [OF step] have
    sub: "set (new_unknown (new_hits s1)) \<subseteq> set (new_unknown (new_hits s))" by simp
  have "writes s' = writes s @ (w # W)" using w(1) W(1) by simp
  moreover have "fst ` set (w # W) \<subseteq> set (new_unknown (new_hits s)) \<union> set (h # hs)"
    using w(2) W(2) sub by auto
  moreover have "\<forall>x. x \<notin> fst ` set (w # W) \<longrightarrow> heap s' x = heap s x"
    using w(3) W(3) by auto
  ultimately show ?case by blast
qed

lemma classify_new_heap:
  "classify_new env base hs s = Inr s' \<Longrightarrow> x \<notin> set hs \<Longrightarrow> heap s' x = heap s x"
proof (induction hs arbitrary: s)
  case Nil
  then show ?case by simp
next
  case (Cons h hs)
  from Cons.prems(1) obtain s1 where
    step: "classify_new_hit env base s h = Inr s1" and
    rest: "classify_new env base hs s1 = Inr s'"
    by (rule classify_new_Cons)
  from classify_new_hit_Inr [OF step] Cons.prems(2) have "heap s1 x = heap s x" by simp
  with Cons.IH [OF rest] Cons.prems(2) show ?case by simp
qed

lemma finish_written:
  assumes "finish env s = Inr s'"
  shows "\<exists>W. writes s' = writes s @ W \<and> map fst W = new_unknown (new_hits s) \<and>
             (\<forall>x. x \<notin> set (new_unknown (new_hits s)) \<longrightarrow> heap s' x = heap s x)"
proof -
  from assms obtain g base where
    p: "classify_new env base (new_unknown (new_hits s))
       (s\<lparr>calls := calls s @ [new_unknown (new_hits s)], newGeneIDs := g,
          new_hits := (new_hits s)\<lparr>new_new := [], new_old := []\<rparr>\<rparr>) = Inr s'"
    by (rule finish_Inr)
  let ?t = "s\<lparr>calls := calls s @ [new_unknown (new_hits s)], newGeneIDs := g,
          new_hits := (new_hits s)\<lparr>new_new := [], new_old := []\<rparr>\<rparr>"
  let ?W = "map (\<lambda>h. (h, if older env (newGeneIDs ?t) base (heap ?t h) then ''strange'' else ''new''))
              (new_unknown (new_hits s))"
  from classify_new_result [OF p] have "writes s' = writes s @ ?W" by simp
  moreover have "map fst ?W = new_unknown (new_hits s)" by (simp add: comp_def)
  moreover have "\<forall>x. x \<notin> set (new_unknown (new_hits s)) \<longrightarrow> heap s' x = heap s x"
    using classify_new_heap [OF p] by simp
  ultimately show ?thesis by blast
qed

lemma part_of_distinct:
  assumes "mset A + mset R + mset B = mset L"
  shows "set A \<union> set R \<union> set B = set L" and "distinct L \<Longrightarrow> distinct R"
proof -
  from assms have e: "mset (A @ R @ B) = mset L" by (simp add: ac_simps)
  from mset_eq_setD [OF e] show "set A \<union> set R \<union> set B = set L" by auto
  assume "distinct L"
  with mset_eq_imp_distinct_iff [OF e] show "distinct R" by simp
qed

lemma compare_written:
  assumes c: "compare env s0 = Inr s'"
    and m: "compare_blasts env (heap s0) (input_new_hits s0) (input_old_hits s0) = (hp, pn, po)"
  shows "\<exists>W. writes s' = writes s0 @ W \<and>
           fst ` set W \<subseteq> set (filter (\<lambda>h. has_gi (hp h)) (b_unknown po)) \<union> set (b_unknown pn) \<and>
           (\<forall>x. x \<notin> set (filter (\<lambda>h. has_gi (hp h)) (b_unknown po)) \<union> set (b_unknown pn) \<longrightarrow>
                heap s' x = hp x)"
proof -
  from c m obtain g s3 oo s4 n4 where
    p1: "classify_old (b_unknown po)
       ((match_hits env s0)\<lparr>calls := calls s0 @ [b_all po], oldGeneIDs := g\<rparr>,
        \<lparr>live = [], replaced = [], suppressed = []\<rparr>) = Inr (s3, oo)" and
    p2: "link_replaced env (replaced oo) (open_buckets s3 oo, None) = Inr (s4, n4)" and
    p3: "finish env s4 = Inr s'"
    by (rule compare_Inr)
  note mh = match_hits_simps [OF m]
  define G where "G = filter (\<lambda>h. has_gi (hp h)) (b_unknown po)"
  define s2 where "s2 = (match_hits env s0)\<lparr>calls := calls s0 @ [b_all po], oldGeneIDs := g\<rparr>"
  have s2: "heap s2 = hp" "writes s2 = writes s0" "new_hits s2 = new_hits (match_hits env s0)"
    by (simp_all add: s2_def mh)
  note p1' = p1 [folded s2_def]
  from classify_old_writes [OF p1'] obtain W1 where
    W1: "writes s3 = writes s0 @ W1" "map fst W1 = G"
    unfolding s2 G_def by blast
  have "set (map fst W1) = set G" by (simp only: W1(2))
  then have W1s: "fst ` set W1 = set G" by simp
  have h1: "heap s3 x = hp x" if "x \<notin> set G" for x
  proof -
    from that have "x \<notin> set (b_unknown po) \<or> \<not> has_gi (heap s2 x)"
      unfolding s2 G_def by simp
    from classify_old_heap [OF p1' this] show ?thesis unfolding s2 .
  qed
  have "mset (live oo) + mset (replaced oo) + mset (suppressed oo) = mset G"
    using classify_old_count [OF p1'] unfolding s2 G_def by simp
  from part_of_distinct(1) [OF this] have R: "set (replaced oo) \<subseteq> set G" by blast
  from classify_old_frame [OF p1'] have "new_hits s3 = new_hits s2" by blast
  then have u3: "new_unknown (new_hits (open_buckets s3 oo)) = b_unknown pn"
    by (simp add: s2 mh)
  have ob: "writes (open_buckets s3 oo) = writes s3" "heap (open_buckets s3 oo) = heap s3"
    by simp_all
  have "\<exists>W. writes s4 = writes s3 @ W \<and> fst ` set W \<subseteq> set (b_unknown pn) \<union> set (replaced oo) \<and>
         (\<forall>x. x \<notin> fst ` set W \<longrightarrow> heap s4 x = heap s3 x)"
    using link_replaced_written [OF p2] by (simp only: ob u3)
  then obtain W2 where
    W2: "writes s4 = writes s3 @ W2" "fst ` set W2 \<subseteq> set (b_unknown pn) \<union> set (replaced oo)"
        "\<forall>x. x \<notin> fst ` set W2 \<longrightarrow> heap s4 x = heap s3 x"
    by (elim exE conjE)
  from link_replaced_grow [OF p2] have
    u4: "set (new_unknown (new_hits s4)) \<subseteq> set (b_unknown pn)" by (simp only: u3)
  from finish_written [OF p3] obtain W3 where
    W3: "writes s' = writes s4 @ W3" "map fst W3 = new_unknown (new_hits s4)"
        "\<forall>x. x \<notin> set (new_unknown (new_hits s4)) \<longrightarrow> heap s' x = heap s4 x"
    by (elim exE conjE)
  have "set (map fst W3) = set (new_unknown (new_hits s4))" by (simp only: W3(2))
  then have W3s: "fst ` set W3 = set (new_unknown (new_hits s4))" by simp
  have 1: "writes s' = writes s0 @ (W1 @ W2 @ W3)" using W1(1) W2(1) W3(1) by simp
  have a1: "fst ` set W1 \<subseteq> set G \<union> set (b_unknown pn)" unfolding W1s by (rule Un_upper1)
  have a2: "fst ` set W2 \<subseteq> set G \<union> set (b_unknown pn)"
  proof
    fix x assume "x \<in> fst ` set W2"
    with W2(2) have "x \<in> set (b_unknown pn) \<or> x \<in> set (replaced oo)" by (simp add: subset_iff)
    with R show "x \<in> set G \<union> set (b_unknown pn)" by (auto simp: subset_iff)
  qed
  have a3: "fst ` set W3 \<subseteq> set G \<union> set (b_unknown pn)"
    unfolding W3s using u4 by (simp add: subset_iff)
  have 2: "fst ` set (W1 @ W2 @ W3) \<subseteq> set G \<union> set (b_unknown pn)"
    unfolding set_append image_Un using a1 a2 a3 by (intro Un_least)
  have 3: "\<forall>x. x \<notin> set G \<union> set (b_unknown pn) \<longrightarrow> heap s' x = hp x"
  proof (intro allI impI)
    fix x assume x: "x \<notin> set G \<union> set (b_unknown pn)"
    then have xg: "x \<notin> set G" and xn: "x \<notin> set (b_unknown pn)" by simp_all
    from u4 xn have "x \<notin> set (new_unknown (new_hits s4))" by (auto dest: subsetD)
    from W3(3) [rule_format, OF this] have a: "heap s' x = heap s4 x" .
    from a2 x have "x \<notin> fst ` set W2" by (auto dest: subsetD)
    from W2(3) [rule_format, OF this] have b: "heap s4 x = heap s3 x" .
    from xg have "heap s3 x = hp x" by (rule h1)
    with a b show "heap s' x = hp x" by simp
  qed
  show ?thesis
    using 1 2 3 unfolding G_def by (intro exI [of _ "W1 @ W2 @ W3"] conjI)
qed

text \<open>
  C7, as the code has it. An old hit without a copy and without an identifier under
  \<^verbatim>\<open>'gi'\<close> is passed over by the loop of line 87 with no exception and no effect. After a
  run that completes it is in none of the buckets \<^verbatim>\<open>lost\<close>, \<^verbatim>\<open>replacement\<close> and
  \<^verbatim>\<open>suppressed\<close>, \<^verbatim>\<open>compare\<close> has not assigned its status, and the object is as the matcher
  left it: nothing marks it for the caller. (The hit is taken not to be among the
  unmatched new hits as well, which belong to the other file.)
\<close>

theorem old_hit_without_gi_is_skipped:
  assumes "compare env s0 = Inr s'"
    and "compare_blasts env (heap s0) (input_new_hits s0) (input_old_hits s0) = (hp, pn, po)"
    and "h \<in> set (b_unknown po)" and "\<not> has_gi (hp h)" and "h \<notin> set (b_unknown pn)"
  shows "(\<forall>s oo. \<not> has_gi (heap s h) \<longrightarrow> classify_old_hit (s, oo) h = Inr (s, oo)) \<and>
         h \<in> set (old_unknown (old_hits s')) \<and>
         h \<notin> set (old_lost (old_hits s')) \<and>
         h \<notin> set (old_replacement (old_hits s')) \<and>
         h \<notin> set (old_suppressed (old_hits s')) \<and>
         heap s' h = hp h \<and>
         (\<exists>W. writes s' = writes s0 @ W \<and> h \<notin> fst ` set W)"
proof -
  from compare_old_side [OF assms(1,2)] have
    u: "old_unknown (old_hits s') = b_unknown po" and
    b: "mset (old_lost (old_hits s')) + mset (old_replacement (old_hits s')) +
           mset (old_suppressed (old_hits s')) =
           mset (filter (\<lambda>h. has_gi (hp h)) (b_unknown po))"
    by simp_all
  from assms(4) have ng: "h \<notin> set (filter (\<lambda>h. has_gi (hp h)) (b_unknown po))" by simp
  from part_of_distinct(1) [OF b] ng have
    n: "h \<notin> set (old_lost (old_hits s'))" "h \<notin> set (old_replacement (old_hits s'))"
       "h \<notin> set (old_suppressed (old_hits s'))" by auto
  from compare_written [OF assms(1,2)] obtain W where
    W: "writes s' = writes s0 @ W"
       "fst ` set W \<subseteq> set (filter (\<lambda>h. has_gi (hp h)) (b_unknown po)) \<union> set (b_unknown pn)"
       "\<forall>x. x \<notin> set (filter (\<lambda>h. has_gi (hp h)) (b_unknown po)) \<union> set (b_unknown pn) \<longrightarrow>
                heap s' x = hp x" by (elim exE conjE)
  from ng assms(5) have out:
    "h \<notin> set (filter (\<lambda>h. has_gi (hp h)) (b_unknown po)) \<union> set (b_unknown pn)" by simp
  with W(2) have nw: "h \<notin> fst ` set W" by (auto dest: subsetD)
  have w: "\<exists>W. writes s' = writes s0 @ W \<and> h \<notin> fst ` set W"
    using W(1) nw by (intro exI [of _ W] conjI)
  from W(3) [rule_format, OF out] have hp: "heap s' h = hp h" .
  have sk: "\<forall>s oo. \<not> has_gi (heap s h) \<longrightarrow> classify_old_hit (s, oo) h = Inr (s, oo)"
    by (simp add: classify_old_hit_no_gi)
  from u assms(3) have iu: "h \<in> set (old_unknown (old_hits s'))" by simp
  from sk iu n hp w show ?thesis by (intro conjI)
qed

theorem old_hit_without_gi_is_skipped_witness:
  "compare run2_env run2 = Inr run2_result \<and>
   1 \<in> set [0, 1 :: nat] \<and> \<not> has_gi (run2_heap 1) \<and> 1 \<notin> set [2 :: nat] \<and>
   1 \<notin> set (old_lost (old_hits run2_result)) \<and>
   1 \<notin> set (old_replacement (old_hits run2_result)) \<and>
   1 \<notin> set (old_suppressed (old_hits run2_result)) \<and>
   heap run2_result 1 = run2_heap 1"
proof -
  have a: "1 \<in> set (b_unknown \<lparr>b_all = [0, 1 :: nat], b_unknown = [0, 1], b_same = [], b_similar = []\<rparr>)"
    "\<not> has_gi (run2_heap 1)"
    "1 \<notin> set (b_unknown \<lparr>b_all = [2 :: nat], b_unknown = [2], b_same = [], b_similar = []\<rparr>)"
    by (simp_all add: has_gi_def run2_heap_def hit_def)
  from old_hit_without_gi_is_skipped [OF run2_compare run2_matcher a] a(2)
  show ?thesis by (simp add: run2_compare)
qed

text \<open>
  C7 as stated fails on the second run. The run completes, and the object it ends in
  names hit 1 only where the input does (the input list, \<^verbatim>\<open>all\<close> and \<^verbatim>\<open>unknown\<close>): the hit
  is in no other bucket and its status is still \<^verbatim>\<open>None\<close>, so nothing reports it.
\<close>

theorem old_hit_without_gi_counterexample:
  "compare run2_env run2 = Inr run2_result \<and>
   \<not> has_gi (run2_heap 1) \<and>
   status (heap run2_result 1) = None \<and>
   1 \<notin> set (old_same (old_hits run2_result) @ old_similar (old_hits run2_result) @
             old_lost (old_hits run2_result) @ old_replacement (old_hits run2_result) @
             old_suppressed (old_hits run2_result)) \<and>
   1 \<notin> fst ` set (writes run2_result)"
  by (simp add: run2_compare) (simp add: run2_result_def has_gi_def run2_heap_def hit_def)

text \<open>
  On the new side there is no test of the database: line 139 looks the first identifier
  up whatever it is, and the run ends in the \<^verbatim>\<open>KeyError\<close> of that line when the directory
  has no entry under it.
\<close>

lemma new_hit_without_gi_aborts:
  "compare run2_env
     (init (run2_heap(2 := hit ''Q1'' [\<lparr>db = ''ref'', num = ''XP_2''\<rparr>] ''c'')) [0] [2]
        ''test@test.com'' ''Q1'') = Inl KeyError"
  by (simp add: run_defs engine_defs)

subsection \<open>How often a status is assigned\<close>

lemma writes_shape:
  assumes d1: "distinct (map fst W1)" and s1: "fst ` set W1 \<subseteq> set A"
    and r: "\<forall>h \<in> set R. (h, ''replaced'') \<in> set W1" and rs: "set R \<subseteq> set A"
    and d2: "distinct (map fst W2)"
    and w2: "\<forall>w \<in> set W2. (fst w \<in> set B \<and> fst w \<notin> set U \<and> snd w = ''replacement'') \<or>
                            (fst w \<in> set R \<and> snd w = ''live'')"
    and w3: "map fst W3 = U" and d3: "distinct U" and us: "set U \<subseteq> set B"
    and dj: "set A \<inter> set B = {}"
  shows "writes_to (W1 @ W2 @ W3) h = [] \<or> (\<exists>v. writes_to (W1 @ W2 @ W3) h = [v]) \<or>
         (h \<in> set A \<and> writes_to (W1 @ W2 @ W3) h = [''replaced'', ''live''])"
proof -
  from w3 d3 have d3': "distinct (map fst W3)" by simp
  from w3 have s3: "fst ` set W3 = set U" by (metis list.set_map)
  note c1 = writes_to_cases [OF d1, of h]
  note c2 = writes_to_cases [OF d2, of h]
  note c3 = writes_to_cases [OF d3', of h]
  show ?thesis
  proof (cases "h \<in> set U")
    case True
    with us have hB: "h \<in> set B" by auto
    with dj have "h \<notin> set A" by auto
    with s1 have "h \<notin> fst ` set W1" by auto
    then have e1: "writes_to W1 h = []" by (rule writes_to_none)
    have "h \<notin> fst ` set W2"
    proof
      assume "h \<in> fst ` set W2"
      then obtain w where w: "w \<in> set W2" "fst w = h" by auto
      with w2 have "(h \<in> set B \<and> h \<notin> set U) \<or> h \<in> set R" by auto
      with True rs \<open>h \<notin> set A\<close> show False by auto
    qed
    then have e2: "writes_to W2 h = []" by (rule writes_to_none)
    from c3 e1 e2 show ?thesis by auto
  next
    case False
    with s3 have "h \<notin> fst ` set W3" by simp
    then have e3: "writes_to W3 h = []" by (rule writes_to_none)
    show ?thesis
    proof (cases "h \<in> fst ` set W2")
      case False
      then have "writes_to W2 h = []" by (rule writes_to_none)
      with c1 e3 show ?thesis by auto
    next
      case True
      then obtain w where w: "w \<in> set W2" "fst w = h" by auto
      then have in2: "(h, snd w) \<in> set W2" by (metis prod.collapse)
      from writes_to_one [OF d2 in2] have e2: "writes_to W2 h = [snd w]" .
      from w2 w consider
        (new) "h \<in> set B" "snd w = ''replacement''" | (old) "h \<in> set R" "snd w = ''live''"
        by auto
      then show ?thesis
      proof cases
        case new
        with dj have "h \<notin> set A" by auto
        with s1 have "h \<notin> fst ` set W1" by auto
        then have "writes_to W1 h = []" by (rule writes_to_none)
        with e2 e3 show ?thesis by simp
      next
        case old
        with r have "(h, ''replaced'') \<in> set W1" by simp
        from writes_to_one [OF d1 this] have "writes_to W1 h = [''replaced'']" .
        moreover from old(1) rs have "h \<in> set A" by auto
        ultimately show ?thesis using e2 e3 old(2) by simp
      qed
    qed
  qed
qed

text \<open>
  C8, as the code has it. In a run that completes, when the unmatched hits of each side
  are distinct objects and no object is unmatched on both sides, \<^verbatim>\<open>compare\<close> assigns the
  status of a hit at most once, with one exception: an unmatched old hit can be assigned
  \<^verbatim>\<open>'replaced'\<close> at line 91 and then \<^verbatim>\<open>'live'\<close> at line 121, when no replacing hit was found
  for it. No hit is assigned more than twice.
\<close>

theorem status_assigned_once_or_relabelled:
  assumes c: "compare env s0 = Inr s'"
    and m: "compare_blasts env (heap s0) (input_new_hits s0) (input_old_hits s0) = (hp, pn, po)"
    and d1: "distinct (b_unknown po)" and d2: "distinct (b_unknown pn)"
    and dj: "set (b_unknown po) \<inter> set (b_unknown pn) = {}"
  shows "\<exists>W. writes s' = writes s0 @ W \<and>
           (\<forall>h. writes_to W h = [] \<or> (\<exists>v. writes_to W h = [v]) \<or>
                (h \<in> set (b_unknown po) \<and> writes_to W h = [''replaced'', ''live'']))"
proof -
  from c m obtain g s3 oo s4 n4 where
    p1: "classify_old (b_unknown po)
       ((match_hits env s0)\<lparr>calls := calls s0 @ [b_all po], oldGeneIDs := g\<rparr>,
        \<lparr>live = [], replaced = [], suppressed = []\<rparr>) = Inr (s3, oo)" and
    p2: "link_replaced env (replaced oo) (open_buckets s3 oo, None) = Inr (s4, n4)" and
    p3: "finish env s4 = Inr s'"
    by (rule compare_Inr)
  note mh = match_hits_simps [OF m]
  define G where "G = filter (\<lambda>h. has_gi (hp h)) (b_unknown po)"
  define s2 where "s2 = (match_hits env s0)\<lparr>calls := calls s0 @ [b_all po], oldGeneIDs := g\<rparr>"
  define U where "U = new_unknown (new_hits s4)"
  have s2: "heap s2 = hp" "writes s2 = writes s0" "new_hits s2 = new_hits (match_hits env s0)"
    by (simp_all add: s2_def mh)
  note p1' = p1 [folded s2_def]
  have "\<exists>W. writes s3 = writes s0 @ W \<and> map fst W = G \<and>
          (\<forall>h \<in> set (replaced oo). (h, ''replaced'') \<in> set W)"
    using classify_old_writes [OF p1'] by (simp add: s2 G_def)
  then obtain W1 where
    W1: "writes s3 = writes s0 @ W1" "map fst W1 = G"
        "\<forall>h \<in> set (replaced oo). (h, ''replaced'') \<in> set W1"
    by (elim exE conjE)
  from d1 have dG: "distinct G" by (simp add: G_def)
  have sG: "set G \<subseteq> set (b_unknown po)" by (simp add: G_def)
  from W1(2) dG have f1: "distinct (map fst W1)" by simp
  have "set (map fst W1) = set G" by (simp only: W1(2))
  with sG have f2: "fst ` set W1 \<subseteq> set (b_unknown po)" by simp
  have cnt: "mset (live oo) + mset (replaced oo) + mset (suppressed oo) = mset G"
    using classify_old_count [OF p1'] by (simp add: s2 G_def)
  from part_of_distinct(1) [OF cnt] sG have rs: "set (replaced oo) \<subseteq> set (b_unknown po)" by auto
  from part_of_distinct(2) [OF cnt dG] have dR: "distinct (replaced oo)" .
  from classify_old_frame [OF p1'] have "new_hits s3 = new_hits s2" by (elim conjE)
  then have u3: "new_unknown (new_hits (open_buckets s3 oo)) = b_unknown pn"
    by (simp add: s2 mh)
  have ob: "writes (open_buckets s3 oo) = writes s3" by simp
  from d2 have dU: "distinct (new_unknown (new_hits (open_buckets s3 oo)))" by (simp only: u3)
  from rs dj have "set (replaced oo) \<inter> set (b_unknown pn) = {}" by auto
  then have dj2: "set (replaced oo) \<inter> set (new_unknown (new_hits (open_buckets s3 oo))) = {}"
    by (simp only: u3)
  have "\<exists>W. writes s4 = writes s3 @ W \<and> distinct (map fst W) \<and>
         (\<forall>w \<in> set W. (fst w \<in> set (b_unknown pn) \<and> fst w \<notin> set U \<and> snd w = ''replacement'') \<or>
                       (fst w \<in> set (replaced oo) \<and> snd w = ''live''))"
    using link_replaced_writes [OF p2 dR dU dj2] by (simp only: ob u3 U_def)
  then obtain W2 where
    W2: "writes s4 = writes s3 @ W2" "distinct (map fst W2)"
        "\<forall>w \<in> set W2. (fst w \<in> set (b_unknown pn) \<and> fst w \<notin> set U \<and> snd w = ''replacement'') \<or>
                       (fst w \<in> set (replaced oo) \<and> snd w = ''live'')"
    by (elim exE conjE)
  note gr = link_replaced_grow [OF p2]
  note gr1 = gr [THEN conjunct1] and gr2 = gr [THEN conjunct2, THEN conjunct1]
  from gr1 gr2
  have us: "set U \<subseteq> set (b_unknown pn)" and d3: "distinct U"
    using dU by (simp_all only: u3 U_def)
  from finish_written [OF p3] obtain W3 where
    W3: "writes s' = writes s4 @ W3" "map fst W3 = U"
    unfolding U_def by (elim exE conjE)
  have w: "writes s' = writes s0 @ (W1 @ W2 @ W3)" using W1(1) W2(1) W3(1) by simp
  have "\<forall>h. writes_to (W1 @ W2 @ W3) h = [] \<or> (\<exists>v. writes_to (W1 @ W2 @ W3) h = [v]) \<or>
         (h \<in> set (b_unknown po) \<and> writes_to (W1 @ W2 @ W3) h = [''replaced'', ''live''])"
    using writes_shape [OF f1 f2 W1(3) rs W2(2) W2(3) W3(2) d3 us dj] by (rule allI)
  with w show ?thesis by (intro exI [of _ "W1 @ W2 @ W3"] conjI)
qed

theorem status_assigned_once_or_relabelled_witness:
  "compare run1_env run1 = Inr run1_result \<and>
   distinct [1, 2, 3, 4 :: nat] \<and> distinct [6, 7, 8, 9 :: nat] \<and>
   set [1, 2, 3, 4 :: nat] \<inter> set [6, 7, 8, 9] = {} \<and>
   writes run1 = [] \<and>
   writes_to (writes run1_result) 0 = [] \<and>
   writes_to (writes run1_result) 1 = [''replaced''] \<and>
   writes_to (writes run1_result) 6 = [''replacement''] \<and>
   writes_to (writes run1_result) 3 = [''replaced'', ''live'']"
proof -
  have a: "distinct (b_unknown \<lparr>b_all = [0, 1, 2, 3, 4 :: nat], b_unknown = [1, 2, 3, 4],
                      b_same = [0], b_similar = []\<rparr>)"
    "distinct (b_unknown \<lparr>b_all = [5, 6, 7, 8, 9 :: nat], b_unknown = [6, 7, 8, 9],
                      b_same = [5], b_similar = []\<rparr>)"
    "set (b_unknown \<lparr>b_all = [0, 1, 2, 3, 4 :: nat], b_unknown = [1, 2, 3, 4],
                      b_same = [0], b_similar = []\<rparr>) \<inter>
     set (b_unknown \<lparr>b_all = [5, 6, 7, 8, 9 :: nat], b_unknown = [6, 7, 8, 9],
                      b_same = [5], b_similar = []\<rparr>) = {}"
    by simp_all
  from status_assigned_once_or_relabelled [OF run1_compare run1_matcher a]
  show ?thesis
    by (simp add: run1_compare) (simp add: run1_result_def run1_def init_def writes_to_def)
qed

text \<open>
  C8 as stated fails on the first run, which completes: the status of hit 3 is assigned
  \<^verbatim>\<open>'replaced'\<close> and later overwritten with \<^verbatim>\<open>'live'\<close>.
\<close>

theorem status_assigned_once_counterexample:
  "compare run1_env run1 = Inr run1_result \<and>
   writes run1 = [] \<and>
   writes_to (writes run1_result) 3 = [''replaced'', ''live''] \<and>
   status (heap run1_result 3) = Some ''live''"
  by (simp add: run1_compare) (simp add: run1_result_def run1_def init_def writes_to_def tagged_def)

subsection \<open>An old hit with two identifiers under \<^verbatim>\<open>'gi'\<close>\<close>




subsection \<open>The assertion on the query names\<close>

lemma append_keys:
  "fst ` (\<lambda>(k, v). if k = q then (k, v @ [h]) else (k, v)) ` set d = fst ` set d"
proof -
  have "(\<lambda>x. fst ((\<lambda>(k, v). if k = q then (k, v @ [h]) else (k, v)) x)) = fst"
    by (auto simp: fun_eq_iff)
  then have "(\<lambda>x. fst ((\<lambda>(k, v). if k = q then (k, v @ [h]) else (k, v)) x)) ` set d = fst ` set d"
    by (rule arg_cong)
  then show ?thesis by (simp only: image_image)
qed

lemma sort_hits_keys:
  "fst ` set (sort_hits hp hs d) = fst ` set d \<union> (\<lambda>h. name (hp h)) ` set hs"
proof (induction hs arbitrary: d)
  case Nil
  then show ?case by simp
next
  case (Cons h hs)
  show ?case
  proof (cases "name (hp h) \<in> fst ` set d")
    case True
    then show ?thesis using Cons [of "map (\<lambda>(k, v). if k = name (hp h) then (k, v @ [h]) else (k, v)) d"]
      by (simp add: append_keys insert_absorb)
  next
    case False
    then show ?thesis using Cons [of "d @ [(name (hp h), [h])]"] by simp
  qed
qed

text \<open>
  C9. When the hits of the two files do not carry the same set of query names,
  \<^verbatim>\<open>perform_comparison\<close> fails with the assertion error of line 310: no query is compared
  and no counts are produced, whatever the imported functions do.
\<close>

theorem mismatched_queries_fail:
  assumes "(\<lambda>h. name (hp h)) ` set old_hits_all \<noteq> (\<lambda>h. name (hp h)) ` set new_hits_all"
  shows "perform_comparison env em topN hp new_hits_all old_hits_all = Inl AssertionError"
  using assms by (simp add: perform_comparison_def Let_def sort_hits_keys)

theorem mismatched_queries_fail_witness:
  "(\<lambda>h. name (run2_heap h)) ` set [0, 1] \<noteq> (\<lambda>h. name ((run2_heap(2 := hit ''Q2'' [gi ''900''] ''c'')) h)) ` set [2]
   \<and> perform_comparison run2_env ''test@test.com'' 0 (run2_heap(2 := hit ''Q2'' [gi ''900''] ''c'')) [2] [0, 1]
       = Inl AssertionError"
  using mismatched_queries_fail [of "run2_heap(2 := hit ''Q2'' [gi ''900''] ''c'')" "[0, 1]" "[2]"
      run2_env "''test@test.com''" 0]
  by (simp add: run2_heap_def hit_def)

end
